theory Spec2Isabelle
  imports Complex_Main
begin

section \<open>Dates of the external date type\<close>

text \<open>
  The space \<open>Bonds\<close> of the model \<open>BasicBonds\<close> computes with the \<open>Date\<close> objects of the
  QuantLib module. A date is a calendar day; the constructor takes day, month and year in
  that order, as \<open>ql.Date(d.day, d.month, d.year)\<close> does. Dates are compared
  chronologically, that is by year, then month, then day.
\<close>

datatype date = Date (dayOfMonth: nat) (month: nat) (year: nat)

instantiation date :: linorder
begin

definition less_eq_date :: "date \<Rightarrow> date \<Rightarrow> bool" where
  "less_eq_date a b \<longleftrightarrow>
     year a < year b \<or>
     (year a = year b \<and>
       (month a < month b \<or> (month a = month b \<and> dayOfMonth a \<le> dayOfMonth b)))"

definition less_date :: "date \<Rightarrow> date \<Rightarrow> bool" where
  "less_date a b \<longleftrightarrow>
     year a < year b \<or>
     (year a = year b \<and>
       (month a < month b \<or> (month a = month b \<and> dayOfMonth a < dayOfMonth b)))"

instance
  by standard (auto simp: less_eq_date_def less_date_def date.expand)

end

definition isLeap :: "nat \<Rightarrow> bool" where
  "isLeap y \<longleftrightarrow> y mod 4 = 0 \<and> (y mod 100 \<noteq> 0 \<or> y mod 400 = 0)"

datatype error = AssertionError | KeyError | IndexError | RuntimeError

text \<open>
  \<open>d + ql.Period('1Y')\<close>: the same day and month of the next year; the 29th of February
  becomes the 28th when the next year is not a leap year. The library confines its dates
  to the years 1901 to 2199 and raises a \<open>RuntimeError\<close> when the new year lies outside.
\<close>

definition plus_1Y :: "date \<Rightarrow> error + date" where
  "plus_1Y d =
     (let y = year d + 1 in
      if y < 1901 \<or> 2199 < y then Inl RuntimeError
      else if dayOfMonth d = 29 \<and> month d = 2 \<and> \<not> isLeap y then Inr (Date 28 2 y)
      else Inr (Date (dayOfMonth d) (month d) y))"

section \<open>Floating-point amounts\<close>

text \<open>
  The amounts are Python floats, that is IEEE 754 binary64 values: the finite ones are
  given by the real number they denote (the two zeros are not distinguished), next to the
  two infinities and the NaN.
\<close>

datatype float64 = Finite real | PlusInf | MinusInf | NaN

definition pow2 :: "int \<Rightarrow> real" where
  "pow2 k = (if 0 \<le> k then 2 ^ nat k else 1 / 2 ^ nat (- k))"

text \<open>Rounding to the nearest integer, a tie to the even one.\<close>

definition round_half_even :: "real \<Rightarrow> int" where
  "round_half_even q =
     (let f = \<lfloor>q\<rfloor>; d = q - of_int f
      in if d < 1 / 2 then f else if 1 / 2 < d then f + 1 else if even f then f else f + 1)"

text \<open>
  Rounding a real to binary64: 53 significant bits, the exponent of the unit in the last
  place not below that of the subnormal numbers, and an infinity when the rounded value
  reaches \<open>2 ^ 1024\<close>.
\<close>

definition round64 :: "real \<Rightarrow> float64" where
  "round64 r =
     (if r = 0 then Finite 0
      else
        let e = max \<lfloor>log 2 \<bar>r\<bar>\<rfloor> (- 1022);
            ulp = pow2 (e - 52);
            v = of_int (round_half_even (r / ulp)) * ulp
        in if pow2 1024 \<le> \<bar>v\<bar> then (if 0 < r then PlusInf else MinusInf) else Finite v)"

text \<open>\<open>x + y\<close> on floats: the exact sum, rounded once.\<close>

fun float_add :: "float64 \<Rightarrow> float64 \<Rightarrow> float64" where
  "float_add (Finite x) (Finite y) = round64 (x + y)"
| "float_add NaN y = NaN"
| "float_add x NaN = NaN"
| "float_add PlusInf MinusInf = NaN"
| "float_add MinusInf PlusInf = NaN"
| "float_add PlusInf y = PlusInf"
| "float_add x PlusInf = PlusInf"
| "float_add MinusInf y = MinusInf"
| "float_add x MinusInf = MinusInf"

text \<open>\<open>sum(xs)\<close>: the additions are made from 0, from left to right.\<close>

definition fsum :: "float64 list \<Rightarrow> float64" where
  "fsum xs = foldl float_add (Finite 0) xs"



text \<open>The real number a finite float stands for, to state exact sums.\<close>

fun real_of :: "float64 \<Rightarrow> real" where
  "real_of (Finite r) = r"
| "real_of PlusInf = 0"
| "real_of MinusInf = 0"
| "real_of NaN = 0"

section \<open>The references of the space\<close>

text \<open>A cash flow of a leg: \<open>leg[i].date()\<close> and \<open>leg[i].amount()\<close>.\<close>

record cashflow =
  cf_date :: date
  amount :: float64

text \<open>One row of \<open>bond_data\<close>, with the columns of its \<open>dtypes\<close>.\<close>

record bond_row =
  settlement_days :: int
  face_value :: int
  issue_date :: date
  bond_term :: int
  maturity_date :: date
  tenor :: string
  coupon_rate :: float64
  z_spread :: float64

datatype frequency = Annual | Semiannual

text \<open>
  The arguments from which \<open>schedule\<close> and \<open>fixed_rate_bond\<close> build the library's
  \<open>Schedule\<close> and \<open>FixedRateBond\<close> objects. The calendar, the conventions, the generation
  rule and the day counter are the same constants for every bond and are not recorded. The
  discount curve of the pricing engine enters only the clean price, which the library
  computes.
\<close>

record Schedule =
  effectiveDate :: date
  terminationDate :: date
  sched_tenor :: frequency

record FixedRateBond =
  settlementDays :: int
  faceAmount :: float64
  bond_schedule :: Schedule
  coupons :: "float64 list"
  spread :: float64

text \<open>
  What the library answers for a bond object: \<open>bond.cashflows()\<close>, \<open>bond.redemptions()\<close>,
  \<open>bond.notional()\<close> and \<open>bond.cleanPrice()\<close>. These are parameters of the model.
\<close>

record ql_module =
  FixedRateBond_cashflows :: "FixedRateBond \<Rightarrow> cashflow list"
  FixedRateBond_redemptions :: "FixedRateBond \<Rightarrow> cashflow list"
  FixedRateBond_notional :: "FixedRateBond \<Rightarrow> float64"
  FixedRateBond_cleanPrice :: "FixedRateBond \<Rightarrow> float64"

type_synonym bond_id = int

text \<open>
  The references of the space: \<open>date_init\<close> and \<open>date_end\<close> (the \<open>Date\<close> objects
  that the two strings denote), \<open>bond_data\<close> (the rows in table order, each with its
  index label \<open>bond_id\<close>) and \<open>ql\<close>.
\<close>

record space =
  date_init :: date
  date_end :: date
  bond_data :: "(bond_id \<times> bond_row) list"
  ql :: ql_module

section \<open>The cells\<close>

subsection \<open>Projection dates and the number of steps\<close>

text \<open>The cell \<open>date_\<close> (a name cannot end in an underscore here, hence \<open>date_at\<close>).\<close>

primrec date_at :: "space \<Rightarrow> nat \<Rightarrow> error + date" where
  "date_at sp 0 = Inr (date_init sp)"
| "date_at sp (Suc i) = (case date_at sp i of Inl e \<Rightarrow> Inl e | Inr d \<Rightarrow> plus_1Y d)"

text \<open>
  The loop \<open>while True\<close> of \<open>step_size\<close>, started at \<open>t\<close>; \<open>None\<close> stands for a loop
  that never ends, \<open>Some (Inl e)\<close> for one that \<open>date_\<close> ends by raising \<open>e\<close>.
\<close>

partial_function (option) step_size_loop :: "space \<Rightarrow> nat \<Rightarrow> (error + nat) option" where
  "step_size_loop sp t =
     (case date_at sp t of
        Inl e \<Rightarrow> Some (Inl e)
      | Inr d \<Rightarrow> if d < date_end sp then step_size_loop sp (t + 1) else Some (Inr t))"

declare step_size_loop.simps [code]

definition step_size :: "space \<Rightarrow> (error + nat) option" where
  "step_size sp = step_size_loop sp 0"

subsection \<open>Bond objects\<close>

text \<open>\<open>bond_data.loc[bond_id]\<close>: the row with that label, a \<open>KeyError\<close> when there is none.\<close>

definition loc :: "space \<Rightarrow> bond_id \<Rightarrow> error + bond_row" where
  "loc sp bond_id =
     (case map_of (bond_data sp) bond_id of None \<Rightarrow> Inl KeyError | Some row \<Rightarrow> Inr row)"

text \<open>\<open>bond_data.index\<close>: the labels in table order.\<close>

definition index :: "space \<Rightarrow> bond_id list" where
  "index sp = map fst (bond_data sp)"

definition schedule :: "space \<Rightarrow> bond_id \<Rightarrow> error + Schedule" where
  "schedule sp bond_id =
     (case loc sp bond_id of
        Inl e \<Rightarrow> Inl e
      | Inr row \<Rightarrow>
          Inr \<lparr>effectiveDate = issue_date row,
               terminationDate = maturity_date row,
               sched_tenor = (if tenor row = ''6Y'' then Semiannual else Annual)\<rparr>)"

text \<open>The face value enters the bond object as \<open>float(face_value)\<close>, the nearest float.\<close>

definition fixed_rate_bond :: "space \<Rightarrow> bond_id \<Rightarrow> error + FixedRateBond" where
  "fixed_rate_bond sp bond_id =
     (case loc sp bond_id of
        Inl e \<Rightarrow> Inl e
      | Inr row \<Rightarrow>
          (case schedule sp bond_id of
             Inl e \<Rightarrow> Inl e
           | Inr s \<Rightarrow>
               Inr \<lparr>settlementDays = settlement_days row,
                    faceAmount = round64 (real_of_int (face_value row)),
                    bond_schedule = s,
                    coupons = [coupon_rate row],
                    spread = z_spread row\<rparr>))"

subsection \<open>Cash flows by projection period\<close>

text \<open>
  A call that may not return (\<open>None\<close>) or may raise (\<open>Inl\<close>), followed by the rest of the
  body.
\<close>

definition and_then ::
  "(error + 'a) option \<Rightarrow> ('a \<Rightarrow> (error + 'b) option) \<Rightarrow> (error + 'b) option" where
  "and_then m f =
     (case m of None \<Rightarrow> None | Some (Inl e) \<Rightarrow> Some (Inl e) | Some (Inr x) \<Rightarrow> f x)"

text \<open>
  The inner loop \<open>while i < len(leg)\<close> of \<open>cashflows\<close> in period \<open>t\<close>, on the state
  \<open>(result, i)\<close>. After the assertion both \<open>date_(t)\<close> and \<open>date_(t+1)\<close> are evaluated
  (the second by the chained comparison or by the \<open>elif\<close>). Leaving by \<open>break\<close> and
  leaving at the end of the leg both return the state; \<open>result[t]\<close> out of range is an
  \<open>IndexError\<close>.
\<close>

function while_cashflows ::
  "space \<Rightarrow> cashflow list \<Rightarrow> nat \<Rightarrow> float64 list \<times> nat \<Rightarrow> error + float64 list \<times> nat" where
  "while_cashflows sp leg t (result, i) =
     (if i < length leg then
        if i > 0 \<and> \<not> cf_date (leg ! (i - 1)) \<le> cf_date (leg ! i) then Inl AssertionError
        else
          (case date_at sp t of
             Inl e \<Rightarrow> Inl e
           | Inr lo \<Rightarrow>
               (case date_at sp (t + 1) of
                  Inl e \<Rightarrow> Inl e
                | Inr hi \<Rightarrow>
                    if lo \<le> cf_date (leg ! i) \<and> cf_date (leg ! i) < hi then
                      if t < length result then
                        while_cashflows sp leg t
                          (result[t := float_add (result ! t) (amount (leg ! i))], i + 1)
                      else Inl IndexError
                    else if hi \<le> cf_date (leg ! i) then Inr (result, i)
                    else while_cashflows sp leg t (result, i + 1)))
      else Inr (result, i))"
  by pat_completeness auto
termination
  by (relation "measure (\<lambda>(sp, leg, t, result, i). length leg - i)") auto

text \<open>The outer loop \<open>for t in range(step_size())\<close>, over the periods still to come.\<close>

fun for_cashflows ::
  "space \<Rightarrow> cashflow list \<Rightarrow> nat list \<Rightarrow> float64 list \<times> nat \<Rightarrow> error + float64 list \<times> nat" where
  "for_cashflows sp leg [] s = Inr s"
| "for_cashflows sp leg (t # ts) s =
     (case while_cashflows sp leg t s of
        Inl e \<Rightarrow> Inl e
      | Inr s' \<Rightarrow> for_cashflows sp leg ts s')"

text \<open>
  \<open>cashflows\<close>: \<open>[0] * step_size()\<close> first, then the leg of the bond, then the loops.
  The initial entries are the integer 0, to which a float is added as to the float 0; an
  entry that no amount is added to stays 0.
\<close>

definition cashflows :: "space \<Rightarrow> bond_id \<Rightarrow> (error + float64 list) option" where
  "cashflows sp bond_id =
     (case step_size sp of
        None \<Rightarrow> None
      | Some (Inl e) \<Rightarrow> Some (Inl e)
      | Some (Inr n) \<Rightarrow>
          Some (case fixed_rate_bond sp bond_id of
                  Inl e \<Rightarrow> Inl e
                | Inr bond \<Rightarrow>
                    (case for_cashflows sp (FixedRateBond_cashflows (ql sp) bond) [0..<n]
                            (replicate n (Finite 0), 0) of
                       Inl e \<Rightarrow> Inl e
                     | Inr (result, i) \<Rightarrow> Inr result)))"

text \<open>The same two loops in \<open>redemptions\<close>, which has no check of the order of the dates.\<close>

function while_redemptions ::
  "space \<Rightarrow> cashflow list \<Rightarrow> nat \<Rightarrow> float64 list \<times> nat \<Rightarrow> error + float64 list \<times> nat" where
  "while_redemptions sp leg t (result, i) =
     (if i < length leg then
        (case date_at sp t of
           Inl e \<Rightarrow> Inl e
         | Inr lo \<Rightarrow>
             (case date_at sp (t + 1) of
                Inl e \<Rightarrow> Inl e
              | Inr hi \<Rightarrow>
                  if lo \<le> cf_date (leg ! i) \<and> cf_date (leg ! i) < hi then
                    if t < length result then
                      while_redemptions sp leg t
                        (result[t := float_add (result ! t) (amount (leg ! i))], i + 1)
                    else Inl IndexError
                  else if hi \<le> cf_date (leg ! i) then Inr (result, i)
                  else while_redemptions sp leg t (result, i + 1)))
      else Inr (result, i))"
  by pat_completeness auto
termination
  by (relation "measure (\<lambda>(sp, leg, t, result, i). length leg - i)") auto

fun for_redemptions ::
  "space \<Rightarrow> cashflow list \<Rightarrow> nat list \<Rightarrow> float64 list \<times> nat \<Rightarrow> error + float64 list \<times> nat" where
  "for_redemptions sp leg [] s = Inr s"
| "for_redemptions sp leg (t # ts) s =
     (case while_redemptions sp leg t s of
        Inl e \<Rightarrow> Inl e
      | Inr s' \<Rightarrow> for_redemptions sp leg ts s')"

definition redemptions :: "space \<Rightarrow> bond_id \<Rightarrow> (error + float64 list) option" where
  "redemptions sp bond_id =
     (case step_size sp of
        None \<Rightarrow> None
      | Some (Inl e) \<Rightarrow> Some (Inl e)
      | Some (Inr n) \<Rightarrow>
          Some (case fixed_rate_bond sp bond_id of
                  Inl e \<Rightarrow> Inl e
                | Inr bond \<Rightarrow>
                    (case for_redemptions sp (FixedRateBond_redemptions (ql sp) bond) [0..<n]
                            (replicate n (Finite 0), 0) of
                       Inl e \<Rightarrow> Inl e
                     | Inr (result, i) \<Rightarrow> Inr result)))"

subsection \<open>Totals over the portfolio\<close>

text \<open>
  \<open>result[t] += cell(i)[t]\<close> for the bonds \<open>i\<close> of the table, where \<open>cell\<close> is
  \<open>cashflows\<close> or \<open>redemptions\<close>; an index out of range is an \<open>IndexError\<close>.
\<close>

fun for_bonds ::
  "(bond_id \<Rightarrow> (error + float64 list) option) \<Rightarrow> nat \<Rightarrow> bond_id list \<Rightarrow> float64 list \<Rightarrow>
   (error + float64 list) option" where
  "for_bonds cell t [] result = Some (Inr result)"
| "for_bonds cell t (i # is) result =
     (if t < length result then
        and_then (cell i) (\<lambda>v.
          if t < length v then for_bonds cell t is (result[t := float_add (result ! t) (v ! t)])
          else Some (Inl IndexError))
      else Some (Inl IndexError))"

fun for_total ::
  "(bond_id \<Rightarrow> (error + float64 list) option) \<Rightarrow> bond_id list \<Rightarrow> nat list \<Rightarrow> float64 list \<Rightarrow>
   (error + float64 list) option" where
  "for_total cell ids [] result = Some (Inr result)"
| "for_total cell ids (t # ts) result =
     and_then (for_bonds cell t ids result) (for_total cell ids ts)"

definition cashflows_total :: "space \<Rightarrow> (error + float64 list) option" where
  "cashflows_total sp =
     (case step_size sp of
        None \<Rightarrow> None
      | Some (Inl e) \<Rightarrow> Some (Inl e)
      | Some (Inr n) \<Rightarrow> for_total (cashflows sp) (index sp) [0..<n] (replicate n (Finite 0)))"

definition redemptions_total :: "space \<Rightarrow> (error + float64 list) option" where
  "redemptions_total sp =
     (case step_size sp of
        None \<Rightarrow> None
      | Some (Inl e) \<Rightarrow> Some (Inl e)
      | Some (Inr n) \<Rightarrow> for_total (redemptions sp) (index sp) [0..<n] (replicate n (Finite 0)))"

subsection \<open>Market values\<close>



declare while_cashflows.simps [simp del]

declare while_redemptions.simps [simp del]

subsection \<open>Notions of the statements\<close>

text \<open>
  The leg is out of order at position \<open>j\<close>: the pair that the assertion of \<open>cashflows\<close>
  compares when it looks at \<open>leg[j]\<close>.
\<close>

definition inversion_at :: "cashflow list \<Rightarrow> nat \<Rightarrow> bool" where
  "inversion_at leg j \<longleftrightarrow>
     0 < j \<and> j < length leg \<and> \<not> cf_date (leg ! (j - 1)) \<le> cf_date (leg ! j)"

subsection \<open>Sample spaces\<close>

text \<open>
  Concrete references on which the cells are evaluated below: a row in the style of the
  sample table, a library that answers every bond with the same two legs, and a library
  that pays the face value at the maturity date.
\<close>

definition sample_row :: "int \<Rightarrow> date \<Rightarrow> string \<Rightarrow> bond_row" where
  "sample_row fv mat tn =
     \<lparr>settlement_days = 0, face_value = fv, issue_date = Date 3 2 2017, bond_term = 6,
      maturity_date = mat, tenor = tn, coupon_rate = round64 (3 / 100),
      z_spread = round64 (155 / 10000)\<rparr>"

definition ql_legs :: "cashflow list \<Rightarrow> cashflow list \<Rightarrow> ql_module" where
  "ql_legs cfs reds =
     \<lparr>FixedRateBond_cashflows = (\<lambda>bond. cfs),
      FixedRateBond_redemptions = (\<lambda>bond. reds),
      FixedRateBond_notional = faceAmount,
      FixedRateBond_cleanPrice = (\<lambda>bond. Finite 98)\<rparr>"

definition ql_at_maturity :: ql_module where
  "ql_at_maturity =
     \<lparr>FixedRateBond_cashflows =
        (\<lambda>bond. [\<lparr>cf_date = terminationDate (bond_schedule bond),
                  amount = faceAmount bond\<rparr>]),
      FixedRateBond_redemptions =
        (\<lambda>bond. [\<lparr>cf_date = terminationDate (bond_schedule bond),
                  amount = faceAmount bond\<rparr>]),
      FixedRateBond_notional = faceAmount,
      FixedRateBond_cleanPrice = (\<lambda>bond. Finite 98)\<rparr>"

definition sample_space ::
  "date \<Rightarrow> date \<Rightarrow> (bond_id \<times> bond_row) list \<Rightarrow> ql_module \<Rightarrow> space" where
  "sample_space d0 d1 rows q = \<lparr>date_init = d0, date_end = d1, bond_data = rows, ql = q\<rparr>"

text \<open>
  Four legs: one in order, with events before, inside and after the calendar; the two
  events of the out-of-order scenario; a leg whose second event is dated before its
  first while the first lies beyond the calendar; and a leg in order whose amounts are
  \<open>2 ^ 53\<close>, 1, 1 and 1.
\<close>

definition leg_in_order :: "cashflow list" where
  "leg_in_order =
     [\<lparr>cf_date = Date 1 6 2021, amount = Finite 7\<rparr>,
      \<lparr>cf_date = Date 1 3 2022, amount = Finite 10\<rparr>,
      \<lparr>cf_date = Date 1 9 2022, amount = Finite 20\<rparr>,
      \<lparr>cf_date = Date 5 5 2024, amount = Finite 30\<rparr>,
      \<lparr>cf_date = Date 1 1 2025, amount = Finite 40\<rparr>]"

definition leg_out_of_order :: "cashflow list" where
  "leg_out_of_order =
     [\<lparr>cf_date = Date 1 1 2023, amount = Finite 5\<rparr>,
      \<lparr>cf_date = Date 1 6 2022, amount = Finite 5\<rparr>]"

definition leg_late_first :: "cashflow list" where
  "leg_late_first =
     [\<lparr>cf_date = Date 1 1 2026, amount = Finite 5\<rparr>,
      \<lparr>cf_date = Date 1 6 2023, amount = Finite 5\<rparr>]"

definition leg_large_small :: "cashflow list" where
  "leg_large_small =
     [\<lparr>cf_date = Date 1 3 2022, amount = Finite 9007199254740992\<rparr>,
      \<lparr>cf_date = Date 1 9 2022, amount = Finite 1\<rparr>,
      \<lparr>cf_date = Date 1 3 2023, amount = Finite 1\<rparr>,
      \<lparr>cf_date = Date 1 9 2023, amount = Finite 1\<rparr>]"

text \<open>The space of the scenarios: valuation date 2022-01-01, end date 2025-01-01, one bond.\<close>

definition space_2022_2025 :: "ql_module \<Rightarrow> space" where
  "space_2022_2025 q =
     sample_space (Date 1 1 2022) (Date 1 1 2025)
       [(1, sample_row 1000 (Date 15 6 2023) ''1Y'')] q"

section \<open>Properties\<close>

subsection \<open>Float arithmetic on given numbers\<close>

lemma pow2_powr: "pow2 k = 2 powr (of_int k)"
proof (cases "0 \<le> k")
  case True
  then have "2 powr (of_int k) = (2::real) ^ nat k"
    by (metis of_int_of_nat_eq of_nat_nat powr_realpow zero_less_numeral)
  then show ?thesis
    using True by (simp add: pow2_def)
next
  case False
  then have "2 powr (of_int k) = 1 / (2::real) powr (of_int (- k))"
    by (simp add: powr_minus_divide)
  also have "(2::real) powr (of_int (- k)) = 2 ^ nat (- k)"
    using False
    by (metis of_int_of_nat_eq of_nat_nat powr_realpow zero_less_numeral neg_0_le_iff_le linear)
  finally show ?thesis
    using False by (simp add: pow2_def)
qed

lemma pow2_pos: "0 < pow2 j"
  by (simp add: pow2_powr)

lemma pow2_mono: "j \<le> k \<Longrightarrow> pow2 j \<le> pow2 k"
  unfolding pow2_powr by (intro powr_mono) simp_all

lemma floor_log2:
  assumes "pow2 k \<le> x" "x < pow2 (k + 1)"
  shows "\<lfloor>log 2 x\<rfloor> = k"
proof -
  have pos: "0 < x"
    using assms(1) pow2_pos[of k] by simp
  have "of_int k \<le> log 2 x"
    using assms(1) pos by (simp add: pow2_powr le_log_iff)
  moreover have "log 2 x < of_int k + 1"
    using assms(2) pos by (simp add: pow2_powr log_less_iff)
  ultimately show ?thesis
    by (simp add: floor_eq_iff)
qed

lemma round_half_even_int: "q \<in> \<int> \<Longrightarrow> of_int (round_half_even q) = q"
  by (auto simp: round_half_even_def Let_def elim!: Ints_cases)

lemma round64_eval:
  assumes "pow2 k \<le> \<bar>r\<bar>" "\<bar>r\<bar> < pow2 (k + 1)" "- 1022 \<le> k"
    and "round_half_even (r / pow2 (k - 52)) = n"
    and "\<bar>of_int n * pow2 (k - 52)\<bar> < pow2 1024"
  shows "round64 r = Finite (of_int n * pow2 (k - 52))"
proof -
  have nz: "r \<noteq> 0"
    using assms(1) pow2_pos[of k] by auto
  have e: "max \<lfloor>log 2 \<bar>r\<bar>\<rfloor> (- 1022) = k"
    using floor_log2[OF assms(1,2)] assms(3) by simp
  show ?thesis
    unfolding round64_def Let_def e assms(4) using nz assms(5) by (simp add: not_le)
qed

lemma round64_exact:
  assumes "pow2 k \<le> \<bar>r\<bar>" "\<bar>r\<bar> < pow2 (k + 1)" "- 1022 \<le> k" "k \<le> 1023"
    and "r / pow2 (k - 52) \<in> \<int>"
  shows "round64 r = Finite r"
proof -
  obtain n where n: "round_half_even (r / pow2 (k - 52)) = n"
    by simp
  have v: "of_int n * pow2 (k - 52) = r"
    using round_half_even_int[OF assms(5)] pow2_pos[of "k - 52"] n by simp
  have "pow2 (k + 1) \<le> pow2 1024"
    using assms(4) by (intro pow2_mono) simp
  then have "\<bar>of_int n * pow2 (k - 52)\<bar> < pow2 1024"
    unfolding v using assms(2) by (rule less_le_trans[rotated])
  from round64_eval[OF assms(1-3) n this] show ?thesis
    unfolding v .
qed

lemma float_add_zero_zero: "float_add (Finite 0) (Finite 0) = Finite 0"
  by (simp add: round64_def)

lemma round64_small:
  "round64 1 = Finite 1" "round64 2 = Finite 2" "round64 5 = Finite 5"
  "round64 10 = Finite 10" "round64 30 = Finite 30" "round64 500 = Finite 500"
  "round64 1000 = Finite 1000"
  using round64_exact[of 0 1] round64_exact[of 1 2] round64_exact[of 2 5]
    round64_exact[of 3 10] round64_exact[of 4 30] round64_exact[of 8 500]
    round64_exact[of 9 1000]
  by (simp_all add: pow2_def)

lemma round64_large:
  "round64 9007199254740992 = Finite 9007199254740992"
  "round64 9007199254740994 = Finite 9007199254740994"
  using round64_exact[of 53 9007199254740992] round64_exact[of 53 9007199254740994]
  by (simp_all add: pow2_def)


lemma round64_tie: "round64 9007199254740993 = Finite 9007199254740992"
proof -
  have f: "\<lfloor>9007199254740993 / 2 :: real\<rfloor> = 4503599627370496"
    by (simp add: floor_eq_iff)
  have "round_half_even (9007199254740993 / pow2 (53 - 52)) = 4503599627370496"
    unfolding round_half_even_def Let_def by (simp add: pow2_def f)
  from round64_eval[of 53 9007199254740993, OF _ _ _ this] show ?thesis
    by (simp add: pow2_def)
qed

subsection \<open>Projection dates\<close>

lemma plus_1Y_Inr:
  assumes "plus_1Y d = Inr d'"
  shows "year d' = Suc (year d)" "month d' = month d" "d < d'" "year d' \<le> 2199"
  using assms by (auto simp: plus_1Y_def Let_def less_date_def split: if_splits)

lemma plus_1Y_Inl: "plus_1Y d = Inl e \<Longrightarrow> e = RuntimeError"
  by (auto simp: plus_1Y_def Let_def split: if_splits)

lemma plus_1Y_defined: "1900 \<le> year d \<Longrightarrow> year d < 2199 \<Longrightarrow> \<exists>d'. plus_1Y d = Inr d'"
  by (simp add: plus_1Y_def Let_def)

lemma date_at_Suc_Inr:
  "date_at sp (Suc t) = Inr d \<Longrightarrow> \<exists>d'. date_at sp t = Inr d' \<and> plus_1Y d' = Inr d"
  by (cases "date_at sp t") simp_all

lemma date_at_Inl: "date_at sp t = Inl e \<Longrightarrow> e = RuntimeError"
proof (induction t)
  case 0
  then show ?case by simp
next
  case (Suc t)
  then show ?case
    by (cases "date_at sp t") (auto dest: plus_1Y_Inl)
qed

lemma year_date_at: "date_at sp t = Inr d \<Longrightarrow> year d = year (date_init sp) + t"
proof (induction t arbitrary: d)
  case 0
  then show ?case by auto
next
  case (Suc t)
  then obtain d' where d': "date_at sp t = Inr d'" "plus_1Y d' = Inr d"
    using date_at_Suc_Inr by blast
  then show ?case
    using Suc.IH[OF d'(1)] plus_1Y_Inr(1)[OF d'(2)] by simp
qed

lemma date_at_below: "date_at sp t = Inr d \<Longrightarrow> s \<le> t \<Longrightarrow> \<exists>d'. date_at sp s = Inr d'"
proof (induction t arbitrary: d)
  case 0
  then show ?case by simp
next
  case (Suc t)
  then obtain d' where d': "date_at sp t = Inr d'"
    using date_at_Suc_Inr by blast
  show ?case
  proof (cases "s = Suc t")
    case True
    then show ?thesis using Suc.prems(1) by simp
  next
    case False
    then have "s \<le> t"
      using Suc.prems(2) by simp
    then show ?thesis
      using Suc.IH[OF d'] by simp
  qed
qed

lemma date_at_strict:
  "s < t \<Longrightarrow> date_at sp s = Inr d' \<Longrightarrow> date_at sp t = Inr d \<Longrightarrow> d' < d"
  by (simp add: less_date_def year_date_at)

lemma date_at_mono:
  assumes "s \<le> t" "date_at sp s = Inr d'" "date_at sp t = Inr d"
  shows "d' \<le> d"
proof (cases "s = t")
  case True
  then show ?thesis
    using assms(2,3) by simp
next
  case False
  then have "d' < d"
    using assms by (intro date_at_strict[of s t sp]) simp_all
  then show ?thesis by simp
qed

lemma date_at_defined:
  "1900 \<le> year (date_init sp) \<Longrightarrow> year (date_init sp) + t \<le> 2199 \<Longrightarrow>
   \<exists>d. date_at sp t = Inr d"
proof (induction t)
  case 0
  then show ?case by simp
next
  case (Suc t)
  then obtain d where d: "date_at sp t = Inr d"
    by auto
  have "year d = year (date_init sp) + t"
    using d by (rule year_date_at)
  then have "\<exists>d'. plus_1Y d = Inr d'"
    using Suc.prems by (intro plus_1Y_defined) simp_all
  then show ?case
    using d by simp
qed

lemma date_at_beyond:
  assumes "0 < t" "2199 < year (date_init sp) + t"
  shows "date_at sp t = Inl RuntimeError"
proof (cases "date_at sp t")
  case (Inl e)
  then show ?thesis
    using date_at_Inl by blast
next
  case (Inr d)
  obtain k where k: "t = Suc k"
    using assms(1) by (cases t) auto
  obtain d' where "date_at sp k = Inr d'" "plus_1Y d' = Inr d"
    using Inr date_at_Suc_Inr unfolding k by blast
  then have "year d \<le> 2199"
    using plus_1Y_Inr(4) by blast
  then show ?thesis
    using year_date_at[OF Inr] assms(2) by simp
qed

subsection \<open>The number of steps\<close>

lemma step_size_loop_cases:
  "(\<exists>N d. step_size_loop sp t = Some (Inr N) \<and> t \<le> N \<and> date_at sp N = Inr d \<and>
          date_end sp \<le> d \<and>
          (\<forall>s. t \<le> s \<and> s < N \<longrightarrow> (\<exists>d'. date_at sp s = Inr d' \<and> d' < date_end sp))) \<or>
   (\<exists>M. step_size_loop sp t = Some (Inl RuntimeError) \<and> t \<le> M \<and>
        date_at sp M = Inl RuntimeError \<and>
        (\<forall>s. t \<le> s \<and> s < M \<longrightarrow> (\<exists>d'. date_at sp s = Inr d' \<and> d' < date_end sp)))"
  (is "?ret t \<or> ?raise t")
proof (induction "Suc (year (date_end sp)) - (year (date_init sp) + t)" arbitrary: t)
  case 0
  show ?case
  proof (cases "date_at sp t")
    case (Inl e)
    then have e: "date_at sp t = Inl RuntimeError"
      using date_at_Inl by blast
    then have "step_size_loop sp t = Some (Inl RuntimeError)"
      by (subst step_size_loop.simps) simp
    then have "?raise t"
      using e by (intro exI[of _ t]) auto
    then show ?thesis ..
  next
    case (Inr d)
    have "year (date_end sp) < year d"
      using 0 year_date_at[OF Inr] by simp
    then have n: "\<not> d < date_end sp"
      by (auto simp: less_date_def)
    then have "step_size_loop sp t = Some (Inr t)"
      using Inr by (subst step_size_loop.simps) simp
    then have "?ret t"
      using Inr n by (intro exI[of _ t] exI[of _ d]) (auto simp: not_less)
    then show ?thesis ..
  qed
next
  case (Suc k)
  show ?case
  proof (cases "date_at sp t")
    case (Inl e)
    then have e: "date_at sp t = Inl RuntimeError"
      using date_at_Inl by blast
    then have "step_size_loop sp t = Some (Inl RuntimeError)"
      by (subst step_size_loop.simps) simp
    then have "?raise t"
      using e by (intro exI[of _ t]) auto
    then show ?thesis ..
  next
    case (Inr d)
    show ?thesis
    proof (cases "d < date_end sp")
      case False
      then have "step_size_loop sp t = Some (Inr t)"
        using Inr by (subst step_size_loop.simps) simp
      then have "?ret t"
        using Inr False by (intro exI[of _ t] exI[of _ d]) (auto simp: not_less)
      then show ?thesis ..
    next
      case True
      have step: "step_size_loop sp t = step_size_loop sp (Suc t)"
        using Inr True by (subst step_size_loop.simps) simp
      have ext: "\<forall>s. t \<le> s \<and> s < M \<longrightarrow> (\<exists>d'. date_at sp s = Inr d' \<and> d' < date_end sp)"
        if "\<forall>s. Suc t \<le> s \<and> s < M \<longrightarrow> (\<exists>d'. date_at sp s = Inr d' \<and> d' < date_end sp)" for M
        using that Inr True by (metis Suc_leI le_neq_implies_less)
      have "k = Suc (year (date_end sp)) - (year (date_init sp) + Suc t)"
        using Suc.hyps(2) by simp
      from Suc.hyps(1)[OF this] show ?thesis
      proof
        assume "?ret (Suc t)"
        then obtain N d where "step_size_loop sp (Suc t) = Some (Inr N)" "Suc t \<le> N"
          "date_at sp N = Inr d" "date_end sp \<le> d"
          "\<forall>s. Suc t \<le> s \<and> s < N \<longrightarrow> (\<exists>d'. date_at sp s = Inr d' \<and> d' < date_end sp)"
          by blast
        then have "?ret t"
          unfolding step using ext[of N] by (intro exI[of _ N] exI[of _ d]) simp
        then show ?thesis ..
      next
        assume "?raise (Suc t)"
        then obtain M where "step_size_loop sp (Suc t) = Some (Inl RuntimeError)" "Suc t \<le> M"
          "date_at sp M = Inl RuntimeError"
          "\<forall>s. Suc t \<le> s \<and> s < M \<longrightarrow> (\<exists>d'. date_at sp s = Inr d' \<and> d' < date_end sp)"
          by blast
        then have "?raise t"
          unfolding step using ext[of M] by (intro exI[of _ M]) simp
        then show ?thesis ..
      qed
    qed
  qed
qed

lemma step_size_cases:
  "(\<exists>N d. step_size sp = Some (Inr N) \<and> date_at sp N = Inr d \<and> date_end sp \<le> d \<and>
          (\<forall>s<N. \<exists>d'. date_at sp s = Inr d' \<and> d' < date_end sp)) \<or>
   (\<exists>M. step_size sp = Some (Inl RuntimeError) \<and> date_at sp M = Inl RuntimeError \<and>
        (\<forall>s<M. \<exists>d'. date_at sp s = Inr d' \<and> d' < date_end sp))"
  using step_size_loop_cases[of sp 0] unfolding step_size_def by simp

lemma step_size_returns:
  assumes "step_size sp = Some (Inr N)"
  shows "\<exists>d. date_at sp N = Inr d \<and> date_end sp \<le> d \<and>
           (\<forall>s<N. \<exists>d'. date_at sp s = Inr d' \<and> d' < date_end sp)"
  using step_size_cases[of sp] assms by auto

lemma step_size_raises:
  assumes "step_size sp = Some (Inl e)"
  shows "e = RuntimeError \<and> (\<forall>M d'. date_at sp M = Inr d' \<longrightarrow> d' < date_end sp)"
proof -
  obtain M0 where M0: "e = RuntimeError" "date_at sp M0 = Inl RuntimeError"
    "\<forall>s<M0. \<exists>d'. date_at sp s = Inr d' \<and> d' < date_end sp"
    using step_size_cases[of sp] assms by auto
  have "d' < date_end sp" if "date_at sp M = Inr d'" for M d'
  proof -
    have "M < M0"
    proof (rule ccontr)
      assume "\<not> M < M0"
      then have "\<exists>d. date_at sp M0 = Inr d"
        using date_at_below[OF that, of M0] by simp
      then show False
        using M0(2) by simp
    qed
    then show ?thesis
      using M0(3) that by auto
  qed
  then show ?thesis
    using M0(1) by blast
qed

lemma step_size_eq_0:
  assumes "date_end sp \<le> date_init sp"
  shows "step_size sp = Some (Inr 0)"
proof -
  have "\<not> date_init sp < date_end sp"
    using assms by (simp add: leD)
  then show ?thesis
    unfolding step_size_def by (subst step_size_loop.simps) simp
qed

lemma step_size_in_range:
  assumes "1900 \<le> year (date_init sp)" "year (date_end sp) < 2199"
  shows "\<exists>N. step_size sp = Some (Inr N)"
proof (rule ccontr)
  assume "\<not> (\<exists>N. step_size sp = Some (Inr N))"
  then have "step_size sp = Some (Inl RuntimeError)"
    using step_size_cases[of sp] by auto
  then have all: "\<forall>M d'. date_at sp M = Inr d' \<longrightarrow> d' < date_end sp"
    using step_size_raises by blast
  have "date_init sp < date_end sp"
    using all by (metis date_at.simps(1))
  then have le: "year (date_init sp) \<le> year (date_end sp)"
    by (auto simp: less_date_def)
  let ?t = "Suc (year (date_end sp)) - year (date_init sp)"
  have "year (date_init sp) + ?t \<le> 2199"
    using le assms(2) by simp
  then obtain d where d: "date_at sp ?t = Inr d"
    using date_at_defined[OF assms(1)] by blast
  then have "year d = Suc (year (date_end sp))"
    using year_date_at[OF d] le by simp
  then have "\<not> d < date_end sp"
    by (auto simp: less_date_def)
  then show False
    using all d by blast
qed

text \<open>
  C3, as amended. \<open>step_size\<close> either returns the smallest \<open>N\<close> whose boundary \<open>date_(N)\<close>
  is not before the end date (then, when \<open>N > 0\<close>, the boundary before it is still before
  the end date, and an end date before or equal to the valuation date gives \<open>N = 0\<close>), or
  it raises the \<open>RuntimeError\<close> of the library, which happens only when no boundary within
  the years of the library reaches the end date. It returns whenever the end date is not
  after the valuation date, and whenever the valuation year is at least 1900 and the year
  of the end date at most 2198.
\<close>

theorem step_size_smallest:
  "((\<exists>N d. step_size sp = Some (Inr N) \<and> date_at sp N = Inr d \<and> date_end sp \<le> d \<and>
          (\<forall>M d'. date_at sp M = Inr d' \<and> date_end sp \<le> d' \<longrightarrow> N \<le> M) \<and>
          (0 < N \<longrightarrow> (\<exists>d'. date_at sp (N - 1) = Inr d' \<and> d' < date_end sp)) \<and>
          (date_end sp \<le> date_init sp \<longrightarrow> N = 0)) \<or>
    (step_size sp = Some (Inl RuntimeError) \<and>
       (\<forall>M d'. date_at sp M = Inr d' \<longrightarrow> d' < date_end sp))) \<and>
   (date_end sp \<le> date_init sp \<or> 1900 \<le> year (date_init sp) \<and> year (date_end sp) < 2199 \<longrightarrow>
      (\<exists>N. step_size sp = Some (Inr N)))"
proof (rule conjI)
  show "date_end sp \<le> date_init sp \<or> 1900 \<le> year (date_init sp) \<and> year (date_end sp) < 2199 \<longrightarrow>
      (\<exists>N. step_size sp = Some (Inr N))"
    using step_size_eq_0[of sp] step_size_in_range[of sp] by blast
next
  from step_size_cases[of sp]
  show "(\<exists>N d. step_size sp = Some (Inr N) \<and> date_at sp N = Inr d \<and> date_end sp \<le> d \<and>
          (\<forall>M d'. date_at sp M = Inr d' \<and> date_end sp \<le> d' \<longrightarrow> N \<le> M) \<and>
          (0 < N \<longrightarrow> (\<exists>d'. date_at sp (N - 1) = Inr d' \<and> d' < date_end sp)) \<and>
          (date_end sp \<le> date_init sp \<longrightarrow> N = 0)) \<or>
    (step_size sp = Some (Inl RuntimeError) \<and>
       (\<forall>M d'. date_at sp M = Inr d' \<longrightarrow> d' < date_end sp))"
  proof
    assume "\<exists>N d. step_size sp = Some (Inr N) \<and> date_at sp N = Inr d \<and> date_end sp \<le> d \<and>
          (\<forall>s<N. \<exists>d'. date_at sp s = Inr d' \<and> d' < date_end sp)"
    then obtain N d where N: "step_size sp = Some (Inr N)" "date_at sp N = Inr d"
      "date_end sp \<le> d" "\<forall>s<N. \<exists>d'. date_at sp s = Inr d' \<and> d' < date_end sp"
      by blast
    have least: "\<forall>M d'. date_at sp M = Inr d' \<and> date_end sp \<le> d' \<longrightarrow> N \<le> M"
    proof (intro allI impI)
      fix M d'
      assume M: "date_at sp M = Inr d' \<and> date_end sp \<le> d'"
      show "N \<le> M"
      proof (rule ccontr)
        assume "\<not> N \<le> M"
        then have "M < N"
          by simp
        then obtain d'' where "date_at sp M = Inr d''" "d'' < date_end sp"
          using N(4) by blast
        then have "d' < date_end sp"
          using M by simp
        then show False
          using M by (simp add: leD)
      qed
    qed
    have "0 < N \<longrightarrow> (\<exists>d'. date_at sp (N - 1) = Inr d' \<and> d' < date_end sp)"
      using N(4) by simp
    moreover have "date_end sp \<le> date_init sp \<longrightarrow> N = 0"
      using least by (metis date_at.simps(1) le_zero_eq)
    ultimately show ?thesis
      using N(1,2,3) least by blast
  next
    assume "\<exists>M. step_size sp = Some (Inl RuntimeError) \<and> date_at sp M = Inl RuntimeError \<and>
        (\<forall>s<M. \<exists>d'. date_at sp s = Inr d' \<and> d' < date_end sp)"
    then have r: "step_size sp = Some (Inl RuntimeError)"
      by blast
    then show ?thesis
      using step_size_raises[OF r] by blast
  qed
qed

theorem step_size_smallest_witness:
  "step_size (sample_space (Date 1 1 2022) (Date 15 6 2024) [] ql_at_maturity) = Some (Inr 3) \<and>
   date_at (sample_space (Date 1 1 2022) (Date 15 6 2024) [] ql_at_maturity) 2
     = Inr (Date 1 1 2024) \<and>
   date_at (sample_space (Date 1 1 2022) (Date 15 6 2024) [] ql_at_maturity) 3
     = Inr (Date 1 1 2025) \<and>
   step_size (sample_space (Date 1 1 2022) (Date 31 12 2021) [] ql_at_maturity) = Some (Inr 0)"
proof -
  let ?sp = "sample_space (Date 1 1 2022) (Date 15 6 2024) [] ql_at_maturity"
  let ?sq = "sample_space (Date 1 1 2022) (Date 31 12 2021) [] ql_at_maturity"
  have e: "date_end ?sp = Date 15 6 2024" "date_end ?sq = Date 31 12 2021"
    "date_init ?sq = Date 1 1 2022" "year (date_init ?sp) = 2022"
    by (simp_all add: sample_space_def)
  have d2: "date_at ?sp 2 = Inr (Date 1 1 2024)" and d3: "date_at ?sp 3 = Inr (Date 1 1 2025)"
    by code_simp+
  have c2: "Date 1 1 2024 < Date 15 6 2024" and c3: "Date 15 6 2024 \<le> Date 1 1 2025"
    and c0: "Date 31 12 2021 \<le> Date 1 1 2022"
    by (simp_all add: less_date_def less_eq_date_def)
  have "\<exists>N. step_size ?sp = Some (Inr N)"
    using step_size_smallest[of ?sp, THEN conjunct2] e by simp
  then obtain N d where N: "step_size ?sp = Some (Inr N)" "date_at ?sp N = Inr d"
    "date_end ?sp \<le> d"
    "\<forall>M d'. date_at ?sp M = Inr d' \<and> date_end ?sp \<le> d' \<longrightarrow> N \<le> M"
    using step_size_smallest[of ?sp, THEN conjunct1] by auto
  have "N \<le> 3"
    using N(4) d3 c3 e(1) by simp
  moreover have "\<not> N \<le> 2"
  proof
    assume "N \<le> 2"
    then have "d \<le> Date 1 1 2024"
      using N(2) d2 by (rule date_at_mono)
    then show False
      using N(3) c2 e(1) by simp
  qed
  ultimately have "N = 3"
    by simp
  moreover have "step_size ?sq = Some (Inr 0)"
  proof -
    have le: "date_end ?sq \<le> date_init ?sq"
      unfolding e using c0 .
    then have "\<exists>K. step_size ?sq = Some (Inr K)"
      using step_size_smallest[of ?sq, THEN conjunct2] by blast
    then show ?thesis
      using step_size_smallest[of ?sq, THEN conjunct1] le by auto
  qed
  ultimately show ?thesis
    using N(1) d2 d3 by simp
qed

theorem step_size_smallest_counterexample:
  "Date 1 6 2199 \<le> Date 31 12 2199 \<and>
   step_size (sample_space (Date 1 6 2199) (Date 31 12 2199) [] ql_at_maturity)
     = Some (Inl RuntimeError)"
  by code_simp

lemma before_end_bound:
  assumes "0 < K" "\<forall>s<K. \<exists>d'. date_at sp s = Inr d' \<and> d' < date_end sp"
  shows "K \<le> Suc (year (date_end sp)) - year (date_init sp)"
proof -
  obtain k where k: "K = Suc k"
    using assms(1) by (cases K) auto
  then obtain d where d: "date_at sp k = Inr d" "d < date_end sp"
    using assms(2) by auto
  have "year d \<le> year (date_end sp)"
    using d(2) by (auto simp: less_date_def)
  then show ?thesis
    using year_date_at[OF d(1)] k by simp
qed

text \<open>
  C10, as amended. The loop of \<open>step_size\<close> ends for every pair of dates, after at most
  one step per year up to the year of the end date: it returns the first \<open>N\<close> with
  \<open>date_(N)\<close> not before the end date, or it is ended by the \<open>RuntimeError\<close> that
  \<open>date_\<close> raises at the first boundary outside the years of the library, all boundaries
  before it being before the end date. \<open>date_(i)\<close> is a date in the year of the valuation
  date plus \<open>i\<close> or that error: a date while this year is at most 2199 (the valuation
  year being at least 1900), the error beyond.
\<close>

theorem step_size_terminates:
  "((\<exists>N d. step_size sp = Some (Inr N) \<and> date_at sp N = Inr d \<and> date_end sp \<le> d \<and>
          (\<forall>s<N. \<exists>d'. date_at sp s = Inr d' \<and> d' < date_end sp) \<and>
          N \<le> Suc (year (date_end sp)) - year (date_init sp)) \<or>
    (\<exists>M. step_size sp = Some (Inl RuntimeError) \<and> date_at sp M = Inl RuntimeError \<and>
          (\<forall>s<M. \<exists>d'. date_at sp s = Inr d' \<and> d' < date_end sp) \<and>
          M \<le> Suc (year (date_end sp)) - year (date_init sp))) \<and>
   (date_at sp i = Inl RuntimeError \<or>
    (\<exists>d. date_at sp i = Inr d \<and> year d = year (date_init sp) + i)) \<and>
   (1900 \<le> year (date_init sp) \<and> year (date_init sp) + i \<le> 2199 \<longrightarrow>
      (\<exists>d. date_at sp i = Inr d)) \<and>
   (0 < i \<and> 2199 < year (date_init sp) + i \<longrightarrow> date_at sp i = Inl RuntimeError)"
proof (intro conjI)
  from step_size_cases[of sp]
  show "(\<exists>N d. step_size sp = Some (Inr N) \<and> date_at sp N = Inr d \<and> date_end sp \<le> d \<and>
          (\<forall>s<N. \<exists>d'. date_at sp s = Inr d' \<and> d' < date_end sp) \<and>
          N \<le> Suc (year (date_end sp)) - year (date_init sp)) \<or>
    (\<exists>M. step_size sp = Some (Inl RuntimeError) \<and> date_at sp M = Inl RuntimeError \<and>
          (\<forall>s<M. \<exists>d'. date_at sp s = Inr d' \<and> d' < date_end sp) \<and>
          M \<le> Suc (year (date_end sp)) - year (date_init sp))"
  proof
    assume "\<exists>N d. step_size sp = Some (Inr N) \<and> date_at sp N = Inr d \<and> date_end sp \<le> d \<and>
          (\<forall>s<N. \<exists>d'. date_at sp s = Inr d' \<and> d' < date_end sp)"
    then obtain N d where N: "step_size sp = Some (Inr N)" "date_at sp N = Inr d"
      "date_end sp \<le> d" "\<forall>s<N. \<exists>d'. date_at sp s = Inr d' \<and> d' < date_end sp"
      by blast
    have "N \<le> Suc (year (date_end sp)) - year (date_init sp)"
      using before_end_bound[OF _ N(4)] by (cases "0 < N") simp_all
    then show ?thesis
      using N by blast
  next
    assume "\<exists>M. step_size sp = Some (Inl RuntimeError) \<and> date_at sp M = Inl RuntimeError \<and>
        (\<forall>s<M. \<exists>d'. date_at sp s = Inr d' \<and> d' < date_end sp)"
    then obtain M where M: "step_size sp = Some (Inl RuntimeError)"
      "date_at sp M = Inl RuntimeError"
      "\<forall>s<M. \<exists>d'. date_at sp s = Inr d' \<and> d' < date_end sp"
      by blast
    have "M \<le> Suc (year (date_end sp)) - year (date_init sp)"
      using before_end_bound[OF _ M(3)] by (cases "0 < M") simp_all
    then show ?thesis
      using M by blast
  qed
next
  show "date_at sp i = Inl RuntimeError \<or>
    (\<exists>d. date_at sp i = Inr d \<and> year d = year (date_init sp) + i)"
    using date_at_Inl[of sp i] year_date_at[of sp i] by (cases "date_at sp i") auto
next
  show "1900 \<le> year (date_init sp) \<and> year (date_init sp) + i \<le> 2199 \<longrightarrow>
      (\<exists>d. date_at sp i = Inr d)"
    using date_at_defined[of sp i] by blast
next
  show "0 < i \<and> 2199 < year (date_init sp) + i \<longrightarrow> date_at sp i = Inl RuntimeError"
    using date_at_beyond[of i sp] by blast
qed

theorem step_size_terminates_witness:
  "step_size (sample_space (Date 1 1 2022) (Date 1 1 2025) [] ql_at_maturity) = Some (Inr 3) \<and>
   (\<exists>d. date_at (sample_space (Date 1 1 2022) (Date 1 1 2025) [] ql_at_maturity) 177 = Inr d) \<and>
   date_at (sample_space (Date 1 1 2022) (Date 1 1 2025) [] ql_at_maturity) 178
     = Inl RuntimeError"
proof -
  let ?sp = "sample_space (Date 1 1 2022) (Date 1 1 2025) [] ql_at_maturity"
  have y: "year (date_init ?sp) = 2022" "year (date_end ?sp) = 2025"
    by (simp_all add: sample_space_def)
  have s: "step_size ?sp = Some (Inr 3)"
    by code_simp
  note t = step_size_terminates[of ?sp]
  have "\<exists>d. date_at ?sp 177 = Inr d"
    using t[of 177] y by simp
  moreover have "date_at ?sp 178 = Inl RuntimeError"
    using t[of 178] y by simp
  ultimately show ?thesis
    using s by blast
qed

theorem step_size_terminates_counterexample:
  "date_at (sample_space (Date 1 1 2199) (Date 2 1 2199) [] ql_at_maturity) 0
     = Inr (Date 1 1 2199) \<and>
   Date 1 1 2199 < Date 2 1 2199 \<and>
   date_at (sample_space (Date 1 1 2199) (Date 2 1 2199) [] ql_at_maturity) 1
     = Inl RuntimeError \<and>
   step_size (sample_space (Date 1 1 2199) (Date 2 1 2199) [] ql_at_maturity)
     = Some (Inl RuntimeError)"
  by code_simp



subsection \<open>Bond objects and market values\<close>

lemma loc_index: "bond_id \<in> set (index sp) \<Longrightarrow> \<exists>row. loc sp bond_id = Inr row"
  by (cases "map_of (bond_data sp) bond_id")
     (auto simp: loc_def index_def map_of_eq_None_iff)

lemma loc_not_index: "bond_id \<notin> set (index sp) \<Longrightarrow> loc sp bond_id = Inl KeyError"
  by (cases "map_of (bond_data sp) bond_id")
     (auto simp: loc_def index_def map_of_eq_None_iff[symmetric])

lemma fixed_rate_bond_index:
  "bond_id \<in> set (index sp) \<Longrightarrow> \<exists>bond. fixed_rate_bond sp bond_id = Inr bond"
  using loc_index[of bond_id sp] by (auto simp: fixed_rate_bond_def schedule_def)




text \<open>
  C9. \<open>schedule\<close> takes the semiannual frequency exactly when the tenor of the row is the
  string \<open>6Y\<close>; every other tenor, the \<open>6M\<close> of the sample table among them, gives an
  annual schedule.
\<close>

theorem schedule_semiannual_only_6Y:
  assumes "loc sp bond_id = Inr row"
  shows "\<exists>s. schedule sp bond_id = Inr s \<and>
           (sched_tenor s = Semiannual \<longleftrightarrow> tenor row = ''6Y'') \<and>
           (tenor row \<noteq> ''6Y'' \<longrightarrow> sched_tenor s = Annual) \<and>
           (tenor row = ''6M'' \<longrightarrow> sched_tenor s = Annual)"
  using assms by (simp add: schedule_def)

theorem schedule_semiannual_only_6Y_witness:
  "(\<exists>s. schedule
          (sample_space (Date 1 1 2022) (Date 1 1 2025)
             [(3, sample_row 799000 (Date 3 2 2023) ''6M'')] ql_at_maturity) 3 = Inr s \<and>
        sched_tenor s = Annual) \<and>
   (\<exists>s. schedule
          (sample_space (Date 1 1 2022) (Date 1 1 2025)
             [(3, sample_row 799000 (Date 3 2 2023) ''6Y'')] ql_at_maturity) 3 = Inr s \<and>
        sched_tenor s = Semiannual)"
proof -
  let ?sp = "\<lambda>tn. sample_space (Date 1 1 2022) (Date 1 1 2025)
             [(3, sample_row 799000 (Date 3 2 2023) tn)] ql_at_maturity"
  have l: "loc (?sp tn) 3 = Inr (sample_row 799000 (Date 3 2 2023) tn)" for tn
    by (simp add: loc_def sample_space_def)
  have t: "tenor (sample_row 799000 (Date 3 2 2023) tn) = tn" for tn
    by (simp add: sample_row_def)
  show ?thesis
    using schedule_semiannual_only_6Y[OF l[of "''6M''"]]
      schedule_semiannual_only_6Y[OF l[of "''6Y''"]]
    unfolding t by auto
qed

subsection \<open>The inner loops\<close>

lemma date_at_Suc_less:
  assumes "date_at sp t = Inr lo" "date_at sp (Suc t) = Inr hi"
  shows "lo < hi"
  using _ assms by (rule date_at_strict) simp

lemma while_redemptions_eq:
  assumes lo: "date_at sp t = Inr lo" and hi: "date_at sp (Suc t) = Inr hi"
  shows "t < length result \<Longrightarrow>
   while_redemptions sp leg t (result, i) =
     Inr (result[t := foldl float_add (result ! t)
            (map amount (filter (\<lambda>cf. lo \<le> cf_date cf)
               (takeWhile (\<lambda>cf. cf_date cf < hi) (drop i leg))))],
          i + length (takeWhile (\<lambda>cf. cf_date cf < hi) (drop i leg)))"
proof (induction "length leg - i" arbitrary: i result)
  case 0
  then show ?case
    by (subst while_redemptions.simps) simp
next
  case (Suc n)
  note prems = Suc.prems
  have hi': "date_at sp (t + 1) = Inr hi"
    using hi by simp
  have IH: "while_redemptions sp leg t (r, Suc i) =
     Inr (r[t := foldl float_add (r ! t)
            (map amount (filter (\<lambda>cf. lo \<le> cf_date cf)
               (takeWhile (\<lambda>cf. cf_date cf < hi) (drop (Suc i) leg))))],
          Suc i + length (takeWhile (\<lambda>cf. cf_date cf < hi) (drop (Suc i) leg)))"
    if "length r = length result" for r
    using Suc.hyps(1)[of "Suc i" r] Suc.hyps(2) prems that by simp
  have i: "i < length leg"
    using Suc.hyps(2) by simp
  then have d: "drop i leg = leg ! i # drop (Suc i) leg"
    by (simp add: Cons_nth_drop_Suc)
  consider (inside) "lo \<le> cf_date (leg ! i)" "cf_date (leg ! i) < hi"
    | (later) "hi \<le> cf_date (leg ! i)"
    | (earlier) "cf_date (leg ! i) < lo"
    by (meson not_le)
  then show ?case
  proof cases
    case inside
    let ?r = "result[t := float_add (result ! t) (amount (leg ! i))]"
    have "while_redemptions sp leg t (result, i) = while_redemptions sp leg t (?r, Suc i)"
      using i inside prems by (subst while_redemptions.simps) (simp add: lo hi del: date_at.simps)
    then show ?thesis
      using inside prems IH[of ?r] by (simp add: d)
  next
    case later
    then have n: "\<not> cf_date (leg ! i) < hi"
      by (simp add: not_less)
    have "while_redemptions sp leg t (result, i) = Inr (result, i)"
      using i later n by (subst while_redemptions.simps) (simp add: lo hi del: date_at.simps)
    then show ?thesis
      using n by (simp add: d)
  next
    case earlier
    then have lt: "cf_date (leg ! i) < hi"
      using date_at_Suc_less[OF lo hi] by (rule less_trans)
    have nle: "\<not> lo \<le> cf_date (leg ! i)" "\<not> hi \<le> cf_date (leg ! i)"
      using earlier lt by (simp_all add: not_le)
    have "while_redemptions sp leg t (result, i) = while_redemptions sp leg t (result, Suc i)"
      using i nle by (subst while_redemptions.simps) (simp add: lo hi del: date_at.simps)
    then show ?thesis
      using nle lt IH[of result] by (simp add: d)
  qed
qed

lemma scan_facts:
  "(\<forall>k. i \<le> k \<and> k < i + length (takeWhile P (drop i leg)) \<longrightarrow> P (leg ! k)) \<and>
   (i + length (takeWhile P (drop i leg)) < length leg \<longrightarrow>
      \<not> P (leg ! (i + length (takeWhile P (drop i leg)))))"
proof (intro conjI allI impI)
  fix k
  assume k: "i \<le> k \<and> k < i + length (takeWhile P (drop i leg))"
  then have lt: "k - i < length (takeWhile P (drop i leg))"
    by arith
  then have "takeWhile P (drop i leg) ! (k - i) \<in> set (takeWhile P (drop i leg))"
    by (rule nth_mem)
  then have "P (takeWhile P (drop i leg) ! (k - i))"
    by (rule set_takeWhileD[THEN conjunct2])
  moreover have "takeWhile P (drop i leg) ! (k - i) = drop i leg ! (k - i)"
    using lt by (rule takeWhile_nth)
  moreover have "k - i < length (drop i leg)"
    using lt length_takeWhile_le[of P "drop i leg"] by linarith
  ultimately show "P (leg ! k)"
    using k by simp
next
  assume "i + length (takeWhile P (drop i leg)) < length leg"
  then have "length (takeWhile P (drop i leg)) < length (drop i leg)"
    by simp
  then have "\<not> P (drop i leg ! length (takeWhile P (drop i leg)))"
    by (rule nth_length_takeWhile)
  then show "\<not> P (leg ! (i + length (takeWhile P (drop i leg))))"
    using \<open>i + length (takeWhile P (drop i leg)) < length leg\<close> by simp
qed

lemma while_cashflows_eq:
  assumes lo: "date_at sp t = Inr lo" and hi: "date_at sp (Suc t) = Inr hi"
  shows "t < length result \<Longrightarrow>
   while_cashflows sp leg t (result, i) =
     (if \<exists>j\<ge>i. inversion_at leg j \<and>
           (\<forall>k. i \<le> k \<and> k < j \<longrightarrow> cf_date (leg ! k) < hi)
      then Inl AssertionError
      else while_redemptions sp leg t (result, i))"
proof (induction "length leg - i" arbitrary: i result)
  case 0
  then have "\<not> (\<exists>j\<ge>i. inversion_at leg j)"
    by (auto simp: inversion_at_def)
  moreover have "while_cashflows sp leg t (result, i) = Inr (result, i)"
    using 0 by (subst while_cashflows.simps) simp
  moreover have "while_redemptions sp leg t (result, i) = Inr (result, i)"
    using 0 by (subst while_redemptions.simps) simp
  ultimately show ?case
    by auto
next
  case (Suc n)
  let ?E = "\<lambda>i. \<exists>j\<ge>i. inversion_at leg j \<and>
           (\<forall>k. i \<le> k \<and> k < j \<longrightarrow> cf_date (leg ! k) < hi)"
  have hi': "date_at sp (t + 1) = Inr hi"
    using hi by simp
  have i: "i < length leg"
    using Suc.hyps(2) by simp
  have IH: "while_cashflows sp leg t (r, Suc i) =
      (if ?E (Suc i) then Inl AssertionError else while_redemptions sp leg t (r, Suc i))"
    if "length r = length result" for r
    using Suc.hyps(1)[of "Suc i" r] Suc.hyps(2) Suc.prems that by simp
  show ?case
  proof (cases "inversion_at leg i")
    case True
    then have "?E i"
      by auto
    moreover have "while_cashflows sp leg t (result, i) = Inl AssertionError"
      using True i by (subst while_cashflows.simps) (simp add: inversion_at_def)
    ultimately show ?thesis
      by (simp only: if_True)
  next
    case False
    then have chk: "\<not> (0 < i \<and> \<not> cf_date (leg ! (i - 1)) \<le> cf_date (leg ! i))"
      using i by (simp add: inversion_at_def)
    show ?thesis
    proof (cases "cf_date (leg ! i) < hi")
      case True
      have E: "?E i \<longleftrightarrow> ?E (Suc i)"
      proof
        assume "?E i"
        then obtain j where j: "j \<ge> i" "inversion_at leg j"
          "\<forall>k. i \<le> k \<and> k < j \<longrightarrow> cf_date (leg ! k) < hi"
          by blast
        then have "j \<noteq> i"
          using False by auto
        then have "j \<ge> Suc i"
          using j(1) by simp
        then show "?E (Suc i)"
          using j(2,3) by (metis Suc_leD)
      next
        assume "?E (Suc i)"
        then obtain j where j: "j \<ge> Suc i" "inversion_at leg j"
          "\<forall>k. Suc i \<le> k \<and> k < j \<longrightarrow> cf_date (leg ! k) < hi"
          by blast
        have "\<forall>k. i \<le> k \<and> k < j \<longrightarrow> cf_date (leg ! k) < hi"
          using j(3) True by (metis Suc_leI le_neq_implies_less)
        then show "?E i"
          using j(1,2) by (metis Suc_leD)
      qed
      show ?thesis
      proof (cases "lo \<le> cf_date (leg ! i)")
        case inside: True
        let ?r = "result[t := float_add (result ! t) (amount (leg ! i))]"
        have c: "while_cashflows sp leg t (result, i) = while_cashflows sp leg t (?r, Suc i)"
          using i chk True inside Suc.prems
          by (subst while_cashflows.simps) (auto simp: lo hi simp del: date_at.simps)
        have r: "while_redemptions sp leg t (result, i) =
            while_redemptions sp leg t (?r, Suc i)"
          using i True inside Suc.prems
          by (subst while_redemptions.simps) (simp add: lo hi del: date_at.simps)
        show ?thesis
          unfolding c r E by (rule IH) simp
      next
        case earlier: False
        have nl: "\<not> hi \<le> cf_date (leg ! i)"
          using True by (simp add: not_le)
        have c: "while_cashflows sp leg t (result, i) = while_cashflows sp leg t (result, Suc i)"
          using i chk earlier nl
          by (subst while_cashflows.simps) (auto simp: lo hi simp del: date_at.simps)
        have r: "while_redemptions sp leg t (result, i) =
            while_redemptions sp leg t (result, Suc i)"
          using i earlier nl
          by (subst while_redemptions.simps) (simp add: lo hi del: date_at.simps)
        show ?thesis
          unfolding c r E by (rule IH) simp
      qed
    next
      case later: False
      then have le: "hi \<le> cf_date (leg ! i)"
        by (simp add: not_less)
      have "\<not> ?E i"
      proof
        assume "?E i"
        then obtain j where j: "j \<ge> i" "inversion_at leg j"
          "\<forall>k. i \<le> k \<and> k < j \<longrightarrow> cf_date (leg ! k) < hi"
          by blast
        then have "j \<noteq> i"
          using False by auto
        then have "i < j"
          using j(1) by simp
        then show False
          using j(3) later by blast
      qed
      moreover have "while_cashflows sp leg t (result, i) = Inr (result, i)"
        using i chk later le
        by (subst while_cashflows.simps) (auto simp: lo hi simp del: date_at.simps)
      moreover have "while_redemptions sp leg t (result, i) = Inr (result, i)"
        using i later le
        by (subst while_redemptions.simps) (simp add: lo hi del: date_at.simps)
      ultimately show ?thesis
        by (simp only: if_False)
    qed
  qed
qed

subsection \<open>The outer loops\<close>

lemma sorted_takeWhile_filter:
  "sorted (map f xs) \<Longrightarrow> takeWhile (\<lambda>x. f x < c) xs = filter (\<lambda>x. f x < c) xs"
proof (induction xs)
  case Nil
  then show ?case by simp
next
  case (Cons y ys)
  show ?case
  proof (cases "f y < c")
    case True
    then show ?thesis
      using Cons by simp
  next
    case False
    have "\<forall>z\<in>set ys. f y \<le> f z"
      using Cons.prems by simp
    then have "\<forall>z\<in>set ys. \<not> f z < c"
      using False by (auto simp: not_less intro: order_trans)
    then have "filter (\<lambda>x. f x < c) ys = []"
      by (simp add: filter_empty_conv)
    then show ?thesis
      using False by simp
  qed
qed

lemma sorted_dropWhile_filter:
  "sorted (map f xs) \<Longrightarrow> dropWhile (\<lambda>x. f x < c) xs = filter (\<lambda>x. c \<le> f x) xs"
proof (induction xs)
  case Nil
  then show ?case by simp
next
  case (Cons y ys)
  show ?case
  proof (cases "f y < c")
    case True
    then show ?thesis
      using Cons by (simp add: not_le)
  next
    case False
    have "\<forall>z\<in>set ys. f y \<le> f z"
      using Cons.prems by simp
    then have "\<forall>z\<in>set ys. c \<le> f z"
      using False by (auto simp: not_less intro: order_trans)
    then have "filter (\<lambda>x. c \<le> f x) ys = ys"
      by (simp add: filter_id_conv)
    then show ?thesis
      using False by (simp add: not_less)
  qed
qed

lemma for_redemptions_step:
  assumes "a < b" "b \<le> length result" "\<forall>t\<le>b. date_at sp t = Inr (D t)"
  shows "for_redemptions sp leg [a..<b] (result, i) =
     for_redemptions sp leg [Suc a..<b]
       (result[a := foldl float_add (result ! a)
            (map amount (filter (\<lambda>cf. D a \<le> cf_date cf)
               (takeWhile (\<lambda>cf. cf_date cf < D (Suc a)) (drop i leg))))],
        i + length (takeWhile (\<lambda>cf. cf_date cf < D (Suc a)) (drop i leg)))"
proof -
  have lo: "date_at sp a = Inr (D a)" and hi: "date_at sp (Suc a) = Inr (D (Suc a))"
    using assms(1,3) by (simp_all del: date_at.simps)
  have "a < length result"
    using assms by simp
  then show ?thesis
    unfolding upt_conv_Cons[OF assms(1)] for_redemptions.simps
      while_redemptions_eq[OF lo hi \<open>a < length result\<close>]
    by simp
qed

lemma for_redemptions_returns:
  assumes "\<forall>t\<le>b. date_at sp t = Inr (D t)"
  shows "b \<le> length result \<Longrightarrow>
   \<exists>result' i'. for_redemptions sp leg [a..<b] (result, i) = Inr (result', i') \<and>
      length result' = length result"
proof (induction "b - a" arbitrary: a result i)
  case 0
  then show ?case by simp
next
  case (Suc n)
  then have ab: "a < b"
    by simp
  let ?r = "result[a := foldl float_add (result ! a)
            (map amount (filter (\<lambda>cf. D a \<le> cf_date cf)
               (takeWhile (\<lambda>cf. cf_date cf < D (Suc a)) (drop i leg))))]"
  let ?i = "i + length (takeWhile (\<lambda>cf. cf_date cf < D (Suc a)) (drop i leg))"
  have "\<exists>result' i'. for_redemptions sp leg [Suc a..<b] (?r, ?i) = Inr (result', i') \<and>
      length result' = length ?r"
    using Suc.hyps(2) Suc.prems by (intro Suc.hyps(1)) simp_all
  then show ?case
    unfolding for_redemptions_step[OF ab Suc.prems assms] by simp
qed

lemma for_redemptions_buckets:
  assumes srt: "sorted (map cf_date leg)" and D: "\<forall>t\<le>b. date_at sp t = Inr (D t)"
  shows "b \<le> length result \<Longrightarrow>
     for_redemptions sp leg [a..<b] (result, i) = Inr (result', i') \<Longrightarrow>
     \<forall>t<length result. result' ! t =
       (if a \<le> t \<and> t < b
        then foldl float_add (result ! t)
               (map amount (filter (\<lambda>cf. D t \<le> cf_date cf \<and> cf_date cf < D (Suc t))
                  (drop i leg)))
        else result ! t)"
proof (induction "b - a" arbitrary: a result i)
  case 0
  then show ?case by simp
next
  case (Suc n)
  then have ab: "a < b"
    by simp
  let ?xs = "drop i leg"
  let ?P = "\<lambda>cf. cf_date cf < D (Suc a)"
  let ?B = "foldl float_add (result ! a)
            (map amount (filter (\<lambda>cf. D a \<le> cf_date cf) (takeWhile ?P ?xs)))"
  let ?r = "result[a := ?B]"
  let ?i = "i + length (takeWhile ?P ?xs)"
  have mono: "D s \<le> D t" if "s \<le> t" "t \<le> b" for s t
    using that D by (intro date_at_mono[of s t sp]) simp_all
  have sx: "sorted (map cf_date ?xs)"
    using srt by (simp add: drop_map[symmetric] sorted_wrt_drop)
  have step: "for_redemptions sp leg [Suc a..<b] (?r, ?i) = Inr (result', i')"
    using Suc.prems(2) unfolding for_redemptions_step[OF ab Suc.prems(1) D] .
  have IH: "\<forall>t<length ?r. result' ! t =
       (if Suc a \<le> t \<and> t < b
        then foldl float_add (?r ! t)
               (map amount (filter (\<lambda>cf. D t \<le> cf_date cf \<and> cf_date cf < D (Suc t))
                  (drop ?i leg)))
        else ?r ! t)"
    using Suc.hyps(2) Suc.prems(1) by (intro Suc.hyps(1)[OF _ _ step]) simp_all
  have dr: "drop ?i leg = filter (\<lambda>cf. D (Suc a) \<le> cf_date cf) ?xs"
  proof -
    have "drop ?i leg = dropWhile ?P ?xs"
      by (simp add: dropWhile_eq_drop add.commute)
    then show ?thesis
      using sorted_dropWhile_filter[OF sx, of "D (Suc a)"] by simp
  qed
  have tk: "filter (\<lambda>cf. D a \<le> cf_date cf) (takeWhile ?P ?xs) =
      filter (\<lambda>cf. D a \<le> cf_date cf \<and> cf_date cf < D (Suc a)) ?xs"
    unfolding sorted_takeWhile_filter[OF sx] by (simp add: conj_commute)
  show ?case
  proof (intro allI impI)
    fix t
    assume t: "t < length result"
    consider (same) "t = a" | (later) "Suc a \<le> t" "t < b" | (other) "t < a \<or> b \<le> t"
      by linarith
    then show "result' ! t =
       (if a \<le> t \<and> t < b
        then foldl float_add (result ! t)
               (map amount (filter (\<lambda>cf. D t \<le> cf_date cf \<and> cf_date cf < D (Suc t)) ?xs))
        else result ! t)"
    proof cases
      case same
      then have "result' ! t = ?B"
        using IH t by simp
      then show ?thesis
        using same ab unfolding tk by simp
    next
      case later
      have "D (Suc a) \<le> D t"
        using later by (intro mono) simp_all
      then have "filter (\<lambda>cf. D t \<le> cf_date cf \<and> cf_date cf < D (Suc t)) (drop ?i leg) =
          filter (\<lambda>cf. D t \<le> cf_date cf \<and> cf_date cf < D (Suc t)) ?xs"
        unfolding dr by (auto intro!: filter_cong)
      moreover have "result' ! t = foldl float_add (?r ! t)
               (map amount (filter (\<lambda>cf. D t \<le> cf_date cf \<and> cf_date cf < D (Suc t))
                  (drop ?i leg)))"
        using IH t later by simp
      moreover have "?r ! t = result ! t"
        using later by simp
      ultimately show ?thesis
        using later by simp
    next
      case other
      then have "result' ! t = ?r ! t"
        using IH t by auto
      moreover have "?r ! t = result ! t"
        using other ab by auto
      ultimately show ?thesis
        using other by auto
    qed
  qed
qed

lemma for_cashflows_eq:
  assumes D: "\<forall>t\<le>b. date_at sp t = Inr (D t)"
  shows "b \<le> length result \<Longrightarrow>
   for_cashflows sp leg [a..<b] (result, i) =
     (if a < b \<and> (\<exists>j\<ge>i. inversion_at leg j \<and>
           (\<forall>k. i \<le> k \<and> k < j \<longrightarrow> cf_date (leg ! k) < D b))
      then Inl AssertionError
      else for_redemptions sp leg [a..<b] (result, i))"
proof (induction "b - a" arbitrary: a result i)
  case 0
  then show ?case by simp
next
  case (Suc n)
  then have ab: "a < b"
    by simp
  then have a: "a < length result"
    using Suc.prems by simp
  let ?E = "\<lambda>i c. \<exists>j\<ge>i. inversion_at leg j \<and>
           (\<forall>k. i \<le> k \<and> k < j \<longrightarrow> cf_date (leg ! k) < D c)"
  let ?P = "\<lambda>cf. cf_date cf < D (Suc a)"
  let ?r = "result[a := foldl float_add (result ! a)
            (map amount (filter (\<lambda>cf. D a \<le> cf_date cf) (takeWhile ?P (drop i leg))))]"
  let ?i = "i + length (takeWhile ?P (drop i leg))"
  have lo: "date_at sp a = Inr (D a)" and hi: "date_at sp (Suc a) = Inr (D (Suc a))"
    using ab D by (simp_all del: date_at.simps)
  have mono: "D s \<le> D t" if "s \<le> t" "t \<le> b" for s t
    using that D by (intro date_at_mono[of s t sp]) simp_all
  have le: "D (Suc a) \<le> D b"
    using ab by (intro mono) simp_all
  have upt: "[a..<b] = a # [Suc a..<b]"
    using ab by (rule upt_conv_Cons)
  have cf: "for_cashflows sp leg [a..<b] (result, i) =
      (if ?E i (Suc a) then Inl AssertionError else for_cashflows sp leg [Suc a..<b] (?r, ?i))"
    unfolding upt for_cashflows.simps while_cashflows_eq[OF lo hi a]
      while_redemptions_eq[OF lo hi a]
    by (cases "?E i (Suc a)") (simp_all only: if_True if_False sum.case)
  have IH: "for_cashflows sp leg [Suc a..<b] (?r, ?i) =
      (if Suc a < b \<and> ?E ?i b then Inl AssertionError
       else for_redemptions sp leg [Suc a..<b] (?r, ?i))"
    using Suc.hyps(2) Suc.prems by (intro Suc.hyps(1)) simp_all
  have red: "for_redemptions sp leg [a..<b] (result, i) =
      for_redemptions sp leg [Suc a..<b] (?r, ?i)"
    using ab Suc.prems D by (rule for_redemptions_step)
  have f1: "\<forall>k. i \<le> k \<and> k < ?i \<longrightarrow> cf_date (leg ! k) < D (Suc a)"
    and f2: "?i < length leg \<longrightarrow> \<not> cf_date (leg ! ?i) < D (Suc a)"
    using scan_facts[of i ?P leg] by blast+
  show ?case
  proof (cases "?E i (Suc a)")
    case True
    then obtain j where j: "j \<ge> i" "inversion_at leg j"
      "\<forall>k. i \<le> k \<and> k < j \<longrightarrow> cf_date (leg ! k) < D (Suc a)"
      by blast
    have "\<forall>k. i \<le> k \<and> k < j \<longrightarrow> cf_date (leg ! k) < D b"
      using j(3) le by (meson less_le_trans)
    then have "?E i b"
      using j(1,2) by blast
    then show ?thesis
      using True ab unfolding cf by (simp only: if_True simp_thms)
  next
    case False
    have "(Suc a < b \<and> ?E ?i b) \<longleftrightarrow> ?E i b"
    proof
      assume "Suc a < b \<and> ?E ?i b"
      then obtain j where j: "j \<ge> ?i" "inversion_at leg j"
        "\<forall>k. ?i \<le> k \<and> k < j \<longrightarrow> cf_date (leg ! k) < D b"
        by blast
      have "\<forall>k. i \<le> k \<and> k < j \<longrightarrow> cf_date (leg ! k) < D b"
      proof (intro allI impI)
        fix k
        assume k: "i \<le> k \<and> k < j"
        show "cf_date (leg ! k) < D b"
        proof (cases "k < ?i")
          case True
          then have "cf_date (leg ! k) < D (Suc a)"
            using f1 k by blast
          then show ?thesis
            using le by (rule less_le_trans)
        next
          case False
          then show ?thesis
            using j(3) k by simp
        qed
      qed
      moreover have "i \<le> j"
        using j(1) by simp
      ultimately show "?E i b"
        using j(2) by blast
    next
      assume "?E i b"
      then obtain j where j: "j \<ge> i" "inversion_at leg j"
        "\<forall>k. i \<le> k \<and> k < j \<longrightarrow> cf_date (leg ! k) < D b"
        by blast
      have "\<not> j \<le> ?i"
      proof
        assume "j \<le> ?i"
        then have "\<forall>k. i \<le> k \<and> k < j \<longrightarrow> cf_date (leg ! k) < D (Suc a)"
          using f1 by simp
        then show False
          using False j(1,2) by blast
      qed
      then have lt: "?i < j"
        by simp
      moreover have "j < length leg"
        using j(2) by (simp add: inversion_at_def)
      ultimately have "\<not> cf_date (leg ! ?i) < D (Suc a)"
        using f2 by simp
      moreover have "cf_date (leg ! ?i) < D b"
        using j(3) lt by simp
      ultimately have "D (Suc a) < D b"
        by (simp add: not_less less_le_trans)
      then have "Suc a < b"
        using mono[of b "Suc a"] ab by (cases "Suc a = b") auto
      moreover have "\<forall>k. ?i \<le> k \<and> k < j \<longrightarrow> cf_date (leg ! k) < D b"
        using j(3) by simp
      ultimately show "Suc a < b \<and> ?E ?i b"
        using lt j(2) by (meson less_imp_le)
    qed
    then show ?thesis
      using False ab unfolding cf IH red by (simp only: if_False simp_thms)
  qed
qed

subsection \<open>Binning the cash flows of a bond\<close>

lemma step_size_dates:
  assumes "step_size sp = Some (Inr N)"
  shows "\<exists>D. \<forall>t\<le>N. date_at sp t = Inr (D t)"
proof -
  obtain d where "date_at sp N = Inr d"
    using step_size_returns[OF assms] by blast
  then have "\<forall>t\<le>N. \<exists>d'. date_at sp t = Inr d'"
    using date_at_below by blast
  then show ?thesis
    by metis
qed

lemma sorted_no_inversion: "sorted (map cf_date leg) \<Longrightarrow> \<not> inversion_at leg j"
proof
  assume s: "sorted (map cf_date leg)" and "inversion_at leg j"
  then have j: "0 < j" "j < length leg" "\<not> cf_date (leg ! (j - 1)) \<le> cf_date (leg ! j)"
    by (simp_all add: inversion_at_def)
  have "map cf_date leg ! (j - 1) \<le> map cf_date leg ! j"
    using s j(2) by (intro sorted_nth_mono) simp_all
  then show False
    using j by simp
qed

lemma cashflows_cases:
  assumes "step_size sp = Some (Inr N)" "fixed_rate_bond sp bond_id = Inr bond"
    and "date_at sp N = Inr dN"
  shows "\<exists>result i. for_redemptions sp (FixedRateBond_cashflows (ql sp) bond) [0..<N]
            (replicate N (Finite 0), 0) = Inr (result, i) \<and> length result = N \<and>
          cashflows sp bond_id =
            Some (if 0 < N \<and> (\<exists>j. inversion_at (FixedRateBond_cashflows (ql sp) bond) j \<and>
                       (\<forall>k<j. cf_date (FixedRateBond_cashflows (ql sp) bond ! k) < dN))
                  then Inl AssertionError else Inr result)"
proof -
  let ?leg = "FixedRateBond_cashflows (ql sp) bond"
  obtain D where D: "\<forall>t\<le>N. date_at sp t = Inr (D t)"
    using step_size_dates[OF assms(1)] by blast
  then have dN: "D N = dN"
    using assms(3) by simp
  obtain result i where
    r: "for_redemptions sp ?leg [0..<N] (replicate N (Finite 0), 0) = Inr (result, i)"
    "length result = N"
    using for_redemptions_returns[OF D, of "replicate N (Finite 0)" ?leg 0 0] by auto
  have "for_cashflows sp ?leg [0..<N] (replicate N (Finite 0), 0) =
     (if 0 < N \<and> (\<exists>j. inversion_at ?leg j \<and> (\<forall>k<j. cf_date (?leg ! k) < dN))
      then Inl AssertionError
      else for_redemptions sp ?leg [0..<N] (replicate N (Finite 0), 0))"
    using for_cashflows_eq[OF D, of "replicate N (Finite 0)" ?leg 0 0] unfolding dN by simp
  then have "for_cashflows sp ?leg [0..<N] (replicate N (Finite 0), 0) =
     (if 0 < N \<and> (\<exists>j. inversion_at ?leg j \<and> (\<forall>k<j. cf_date (?leg ! k) < dN))
      then Inl AssertionError else Inr (result, i))"
    unfolding r(1) .
  then have "cashflows sp bond_id =
     Some (if 0 < N \<and> (\<exists>j. inversion_at ?leg j \<and> (\<forall>k<j. cf_date (?leg ! k) < dN))
           then Inl AssertionError else Inr result)"
    using assms(1,2) by (simp add: cashflows_def)
  then show ?thesis
    using r by blast
qed

lemma redemptions_cases:
  assumes "step_size sp = Some (Inr N)" "fixed_rate_bond sp bond_id = Inr bond"
  shows "\<exists>result i. for_redemptions sp (FixedRateBond_redemptions (ql sp) bond) [0..<N]
            (replicate N (Finite 0), 0) = Inr (result, i) \<and> length result = N \<and>
          redemptions sp bond_id = Some (Inr result)"
proof -
  let ?leg = "FixedRateBond_redemptions (ql sp) bond"
  obtain D where D: "\<forall>t\<le>N. date_at sp t = Inr (D t)"
    using step_size_dates[OF assms(1)] by blast
  obtain result i where
    r: "for_redemptions sp ?leg [0..<N] (replicate N (Finite 0), 0) = Inr (result, i)"
    "length result = N"
    using for_redemptions_returns[OF D, of "replicate N (Finite 0)" ?leg 0 0] by auto
  then have "redemptions sp bond_id = Some (Inr result)"
    using assms by (simp add: redemptions_def)
  then show ?thesis
    using r by blast
qed

lemma sorted_buckets:
  assumes "step_size sp = Some (Inr N)" and "sorted (map cf_date leg)"
    and "for_redemptions sp leg [0..<N] (replicate N (Finite 0), 0) = Inr (result, i)"
    and "t < N"
  shows "\<exists>lo hi. date_at sp t = Inr lo \<and> date_at sp (Suc t) = Inr hi \<and>
           result ! t = fsum (map amount (filter (\<lambda>cf. lo \<le> cf_date cf \<and> cf_date cf < hi) leg))"
proof -
  obtain D where D: "\<forall>t\<le>N. date_at sp t = Inr (D t)"
    using step_size_dates[OF assms(1)] by blast
  have "\<forall>t<length (replicate N (Finite 0)). result ! t =
       (if 0 \<le> t \<and> t < N
        then foldl float_add (replicate N (Finite 0) ! t)
               (map amount (filter (\<lambda>cf. D t \<le> cf_date cf \<and> cf_date cf < D (Suc t))
                  (drop 0 leg)))
        else replicate N (Finite 0) ! t)"
    using assms(2) D _ assms(3) by (rule for_redemptions_buckets) simp
  then have "result ! t =
      fsum (map amount (filter (\<lambda>cf. D t \<le> cf_date cf \<and> cf_date cf < D (Suc t)) leg))"
    using assms(4) by (simp add: fsum_def)
  moreover have "date_at sp t = Inr (D t)" "date_at sp (Suc t) = Inr (D (Suc t))"
    using D assms(4) by (simp_all del: date_at.simps)
  ultimately show ?thesis
    by blast
qed

lemma cashflows_sorted:
  assumes "fixed_rate_bond sp bond_id = Inr bond"
    and "sorted (map cf_date (FixedRateBond_cashflows (ql sp) bond))"
    and "step_size sp = Some (Inr N)"
  shows "\<exists>result. cashflows sp bond_id = Some (Inr result) \<and> length result = N \<and>
     (\<forall>t<N. \<exists>lo hi. date_at sp t = Inr lo \<and> date_at sp (Suc t) = Inr hi \<and>
        result ! t =
          fsum (map amount (filter (\<lambda>cf. lo \<le> cf_date cf \<and> cf_date cf < hi)
            (FixedRateBond_cashflows (ql sp) bond))))"
proof -
  let ?leg = "FixedRateBond_cashflows (ql sp) bond"
  obtain dN where dN: "date_at sp N = Inr dN"
    using step_size_returns[OF assms(3)] by blast
  obtain result i where
    r: "for_redemptions sp ?leg [0..<N] (replicate N (Finite 0), 0) = Inr (result, i)"
    "length result = N"
    "cashflows sp bond_id =
       Some (if 0 < N \<and> (\<exists>j. inversion_at ?leg j \<and> (\<forall>k<j. cf_date (?leg ! k) < dN))
             then Inl AssertionError else Inr result)"
    using cashflows_cases[OF assms(3,1) dN] by blast
  have "cashflows sp bond_id = Some (Inr result)"
    using r(3) sorted_no_inversion[OF assms(2)] by simp
  then show ?thesis
    using r(2) sorted_buckets[OF assms(3,2) r(1)] by blast
qed

lemma redemptions_sorted:
  assumes "fixed_rate_bond sp bond_id = Inr bond"
    and "sorted (map cf_date (FixedRateBond_redemptions (ql sp) bond))"
    and "step_size sp = Some (Inr N)"
  shows "\<exists>result. redemptions sp bond_id = Some (Inr result) \<and> length result = N \<and>
     (\<forall>t<N. \<exists>lo hi. date_at sp t = Inr lo \<and> date_at sp (Suc t) = Inr hi \<and>
        result ! t =
          fsum (map amount (filter (\<lambda>cf. lo \<le> cf_date cf \<and> cf_date cf < hi)
            (FixedRateBond_redemptions (ql sp) bond))))"
proof -
  let ?leg = "FixedRateBond_redemptions (ql sp) bond"
  obtain result i where
    r: "for_redemptions sp ?leg [0..<N] (replicate N (Finite 0), 0) = Inr (result, i)"
    "length result = N" "redemptions sp bond_id = Some (Inr result)"
    using redemptions_cases[OF assms(3,1)] by blast
  then show ?thesis
    using sorted_buckets[OF assms(3,2) r(1)] by blast
qed

text \<open>
  C1, as amended. On a leg sorted by date \<open>cashflows\<close> returns a vector of length \<open>N\<close>
  whose element \<open>t\<close> is the float sum, made from 0 in the order of the leg, of the
  amounts of the events dated in \<open>[date_(t), date_(t+1))\<close>: every event dated in
  \<open>[date_(0), date_(N))\<close> enters exactly one element, the other events none.
\<close>

theorem cashflows_partition:
  assumes "fixed_rate_bond sp bond_id = Inr bond"
    and "sorted (map cf_date (FixedRateBond_cashflows (ql sp) bond))"
    and "step_size sp = Some (Inr N)"
  shows "\<exists>result. cashflows sp bond_id = Some (Inr result) \<and> length result = N \<and>
     (\<forall>t<N. \<exists>lo hi. date_at sp t = Inr lo \<and> date_at sp (Suc t) = Inr hi \<and>
        result ! t =
          fsum (map amount (filter (\<lambda>cf. lo \<le> cf_date cf \<and> cf_date cf < hi)
            (FixedRateBond_cashflows (ql sp) bond))))"
  using assms by (rule cashflows_sorted)

lemma calendar_2022_2025:
  assumes "date_init sp = Date 1 1 2022" and "date_end sp = Date 1 1 2025"
  shows "date_at sp 0 = Inr (Date 1 1 2022)"
    and "date_at sp (Suc 0) = Inr (Date 1 1 2023)"
    and "date_at sp (Suc (Suc 0)) = Inr (Date 1 1 2024)"
    and "date_at sp (Suc (Suc (Suc 0))) = Inr (Date 1 1 2025)"
    and "step_size sp = Some (Inr 3)"
proof -
  show d: "date_at sp 0 = Inr (Date 1 1 2022)"
    "date_at sp (Suc 0) = Inr (Date 1 1 2023)"
    "date_at sp (Suc (Suc 0)) = Inr (Date 1 1 2024)"
    "date_at sp (Suc (Suc (Suc 0))) = Inr (Date 1 1 2025)"
    by (simp_all add: assms(1) plus_1Y_def)
  have "step_size_loop sp 0 = Some (Inr 3)"
    apply (subst step_size_loop.simps, simp add: assms less_date_def plus_1Y_def)+
    done
  then show "step_size sp = Some (Inr 3)"
    by (simp add: step_size_def)
qed

lemma space_2022_2025_simps:
  "date_init (space_2022_2025 q) = Date 1 1 2022"
  "date_end (space_2022_2025 q) = Date 1 1 2025"
  "ql (space_2022_2025 q) = q"
  "\<exists>bond. fixed_rate_bond (space_2022_2025 q) 1 = Inr bond"
  by (simp_all add: space_2022_2025_def sample_space_def fixed_rate_bond_def schedule_def loc_def)

lemmas date_at_2022_2025 =
  calendar_2022_2025(1-4)[OF space_2022_2025_simps(1,2)]

lemmas step_size_2022_2025 =
  calendar_2022_2025(5)[OF space_2022_2025_simps(1,2)]

lemma upt_3: "[0..<3] = [0, Suc 0, Suc (Suc 0)]"
  by (simp add: upt_rec)

lemma upt_4: "[0..<4] = [0, Suc 0, Suc (Suc 0), Suc (Suc (Suc 0))]"
  by (simp add: upt_rec)

lemma list_of_length_3:
  "length xs = 3 \<Longrightarrow> xs = [xs ! 0, xs ! Suc 0, xs ! Suc (Suc 0)]"
  by (simp add: list_eq_iff_nth_eq less_Suc_eq numeral_3_eq_3)

lemma buckets_2022_2025:
  assumes "date_init sp = Date 1 1 2022" and "date_end sp = Date 1 1 2025"
    and "length result = 3"
    and "\<forall>t<3. \<exists>lo hi. date_at sp t = Inr lo \<and> date_at sp (Suc t) = Inr hi \<and>
           result ! t = fsum (map amount (filter (\<lambda>cf. lo \<le> cf_date cf \<and> cf_date cf < hi) leg))"
  shows "result =
    [fsum (map amount (filter (\<lambda>cf. Date 1 1 2022 \<le> cf_date cf \<and> cf_date cf < Date 1 1 2023) leg)),
     fsum (map amount (filter (\<lambda>cf. Date 1 1 2023 \<le> cf_date cf \<and> cf_date cf < Date 1 1 2024) leg)),
     fsum (map amount (filter (\<lambda>cf. Date 1 1 2024 \<le> cf_date cf \<and> cf_date cf < Date 1 1 2025) leg))]"
proof -
  note d = calendar_2022_2025(1-4)[OF assms(1,2)]
  have "result ! 0 =
      fsum (map amount (filter (\<lambda>cf. Date 1 1 2022 \<le> cf_date cf \<and> cf_date cf < Date 1 1 2023) leg))"
    using assms(4)[rule_format, of 0] by (auto simp add: d simp del: date_at.simps)
  moreover have "result ! Suc 0 =
      fsum (map amount (filter (\<lambda>cf. Date 1 1 2023 \<le> cf_date cf \<and> cf_date cf < Date 1 1 2024) leg))"
    using assms(4)[rule_format, of "Suc 0"]
    by (auto simp add: d simp del: date_at.simps)
  moreover have "result ! Suc (Suc 0) =
      fsum (map amount (filter (\<lambda>cf. Date 1 1 2024 \<le> cf_date cf \<and> cf_date cf < Date 1 1 2025) leg))"
    using assms(4)[rule_format, of "Suc (Suc 0)"]
    by (auto simp add: d simp del: date_at.simps)
  ultimately show ?thesis
    using list_of_length_3[OF assms(3)] by simp
qed

theorem cashflows_partition_witness:
  "cashflows (space_2022_2025 (ql_legs leg_in_order [])) 1
     = Some (Inr [Finite 30, Finite 0, Finite 30])"
proof -
  let ?sp = "space_2022_2025 (ql_legs leg_in_order [])"
  obtain bond where bond: "fixed_rate_bond ?sp 1 = Inr bond"
    using space_2022_2025_simps(4) by blast
  have leg: "FixedRateBond_cashflows (ql ?sp) bond = leg_in_order"
    by (simp add: space_2022_2025_simps ql_legs_def)
  have "sorted (map cf_date leg_in_order)"
    by (simp add: leg_in_order_def less_eq_date_def)
  then have "sorted (map cf_date (FixedRateBond_cashflows (ql ?sp) bond))"
    by (simp only: leg)
  from cashflows_partition[OF bond this step_size_2022_2025] obtain result where
    r: "cashflows ?sp 1 = Some (Inr result)" "length result = 3"
      "\<forall>t<3. \<exists>lo hi. date_at ?sp t = Inr lo \<and> date_at ?sp (Suc t) = Inr hi \<and>
         result ! t =
           fsum (map amount (filter (\<lambda>cf. lo \<le> cf_date cf \<and> cf_date cf < hi) leg_in_order))"
    unfolding leg by blast
  have "result = [Finite 30, Finite 0, Finite 30]"
    unfolding buckets_2022_2025[OF space_2022_2025_simps(1,2) r(2,3)]
    by (simp add: leg_in_order_def less_eq_date_def less_date_def fsum_def round64_small)
  then show ?thesis
    using r(1) by simp
qed

theorem cashflows_partition_counterexample:
  "sorted (map cf_date leg_large_small) \<and>
   map cf_date leg_large_small = [Date 1 3 2022, Date 1 9 2022, Date 1 3 2023, Date 1 9 2023] \<and>
   cashflows (space_2022_2025 (ql_legs leg_large_small [])) 1
     = Some (Inr [Finite 9007199254740992, Finite 2, Finite 0]) \<and>
   fsum [Finite 9007199254740992, Finite 2, Finite 0] = Finite 9007199254740994 \<and>
   fsum (map amount leg_large_small) = Finite 9007199254740992 \<and>
   sum_list (map real_of [Finite 9007199254740992, Finite 2, Finite 0]) = 9007199254740994 \<and>
   sum_list (map real_of (map amount leg_large_small)) = 9007199254740995"
proof -
  let ?sp = "space_2022_2025 (ql_legs leg_large_small [])"
  obtain bond where bond: "fixed_rate_bond ?sp 1 = Inr bond"
    using space_2022_2025_simps(4) by blast
  have leg: "FixedRateBond_cashflows (ql ?sp) bond = leg_large_small"
    by (simp add: space_2022_2025_simps ql_legs_def)
  have s: "sorted (map cf_date leg_large_small)"
    by (simp add: leg_large_small_def less_eq_date_def)
  then have "sorted (map cf_date (FixedRateBond_cashflows (ql ?sp) bond))"
    by (simp only: leg)
  from cashflows_sorted[OF bond this step_size_2022_2025] obtain result where
    r: "cashflows ?sp 1 = Some (Inr result)" "length result = 3"
      "\<forall>t<3. \<exists>lo hi. date_at ?sp t = Inr lo \<and> date_at ?sp (Suc t) = Inr hi \<and>
         result ! t =
           fsum (map amount (filter (\<lambda>cf. lo \<le> cf_date cf \<and> cf_date cf < hi) leg_large_small))"
    unfolding leg by blast
  have "result = [Finite 9007199254740992, Finite 2, Finite 0]"
    unfolding buckets_2022_2025[OF space_2022_2025_simps(1,2) r(2,3)]
    by (simp add: leg_large_small_def less_eq_date_def less_date_def fsum_def round64_small
        round64_large round64_tie)
  then have "cashflows ?sp 1 = Some (Inr [Finite 9007199254740992, Finite 2, Finite 0])"
    using r(1) by simp
  moreover have "map cf_date leg_large_small =
      [Date 1 3 2022, Date 1 9 2022, Date 1 3 2023, Date 1 9 2023]"
    by (simp add: leg_large_small_def)
  moreover have "fsum [Finite 9007199254740992, Finite 2, Finite 0] = Finite 9007199254740994"
    by (simp add: fsum_def round64_large)
  moreover have "fsum (map amount leg_large_small) = Finite 9007199254740992"
    by (simp add: fsum_def leg_large_small_def round64_large round64_tie)
  moreover have
    "sum_list (map real_of [Finite 9007199254740992, Finite 2, Finite 0]) = 9007199254740994"
    by simp
  moreover have "sum_list (map real_of (map amount leg_large_small)) = 9007199254740995"
    by (simp add: leg_large_small_def)
  ultimately show ?thesis
    using s by (intro conjI)
qed

text \<open>
  C2, as amended. \<open>cashflows\<close> raises the assertion error exactly when its sweep reaches a
  pair of events out of order: there is a period (\<open>N > 0\<close>) and a position \<open>j\<close> whose
  event is dated before its predecessor while all events before \<open>j\<close> are dated before
  \<open>date_(N)\<close>. Otherwise it returns a vector of length \<open>N\<close>.
\<close>

theorem cashflows_ordering_violation:
  assumes "fixed_rate_bond sp bond_id = Inr bond" and "step_size sp = Some (Inr N)"
  shows "\<exists>dN. date_at sp N = Inr dN \<and>
         (cashflows sp bond_id = Some (Inl AssertionError) \<longleftrightarrow>
          0 < N \<and> (\<exists>j. inversion_at (FixedRateBond_cashflows (ql sp) bond) j \<and>
             (\<forall>k<j. cf_date (FixedRateBond_cashflows (ql sp) bond ! k) < dN))) \<and>
         (cashflows sp bond_id = Some (Inl AssertionError) \<or>
          (\<exists>result. cashflows sp bond_id = Some (Inr result) \<and> length result = N))"
proof -
  let ?leg = "FixedRateBond_cashflows (ql sp) bond"
  obtain dN where dN: "date_at sp N = Inr dN"
    using step_size_returns[OF assms(2)] by blast
  let ?C = "0 < N \<and> (\<exists>j. inversion_at ?leg j \<and> (\<forall>k<j. cf_date (?leg ! k) < dN))"
  obtain result i where r: "length result = N"
    "cashflows sp bond_id = Some (if ?C then Inl AssertionError else Inr result)"
    using cashflows_cases[OF assms(2,1) dN] by blast
  have main: "(cashflows sp bond_id = Some (Inl AssertionError) \<longleftrightarrow> ?C) \<and>
         (cashflows sp bond_id = Some (Inl AssertionError) \<or>
          (\<exists>result. cashflows sp bond_id = Some (Inr result) \<and> length result = N))"
  proof (cases ?C)
    case True
    then have "cashflows sp bond_id = Some (Inl AssertionError)"
      unfolding r(2) by (simp only: if_True simp_thms)
    then show ?thesis
      using True by blast
  next
    case False
    then have "cashflows sp bond_id = Some (Inr result)"
      unfolding r(2) by (simp only: if_False simp_thms)
    then show ?thesis
      using False r(1) by auto
  qed
  show ?thesis
    by (rule exI[of _ dN]) (rule conjI[OF dN main])
qed

theorem cashflows_ordering_violation_witness:
  "cashflows (space_2022_2025 (ql_legs leg_out_of_order leg_out_of_order)) 1
     = Some (Inl AssertionError)"
proof -
  let ?sp = "space_2022_2025 (ql_legs leg_out_of_order leg_out_of_order)"
  obtain bond where bond: "fixed_rate_bond ?sp 1 = Inr bond"
    using space_2022_2025_simps(4) by blast
  have leg: "FixedRateBond_cashflows (ql ?sp) bond = leg_out_of_order"
    by (simp add: space_2022_2025_simps ql_legs_def)
  from cashflows_ordering_violation[OF bond step_size_2022_2025] obtain dN where
    dN: "date_at ?sp 3 = Inr dN"
    and iff: "cashflows ?sp 1 = Some (Inl AssertionError) \<longleftrightarrow>
        (0::nat) < 3 \<and> (\<exists>j. inversion_at leg_out_of_order j \<and>
          (\<forall>k<j. cf_date (leg_out_of_order ! k) < dN))"
    unfolding leg by blast
  have "dN = Date 1 1 2025"
    using dN date_at_2022_2025(4) by (simp add: numeral_3_eq_3 del: date_at.simps)
  have inv: "inversion_at leg_out_of_order 1"
    by (simp add: inversion_at_def leg_out_of_order_def less_eq_date_def)
  have "cf_date (leg_out_of_order ! 0) < dN"
    unfolding \<open>dN = Date 1 1 2025\<close> by (simp add: leg_out_of_order_def less_date_def)
  then have "\<forall>k<1. cf_date (leg_out_of_order ! k) < dN"
    by simp
  with inv have "\<exists>j. inversion_at leg_out_of_order j \<and>
      (\<forall>k<j. cf_date (leg_out_of_order ! k) < dN)"
    by (rule exI[of _ 1, OF conjI])
  then have "(0::nat) < 3 \<and> (\<exists>j. inversion_at leg_out_of_order j \<and>
      (\<forall>k<j. cf_date (leg_out_of_order ! k) < dN))"
    by simp
  then show ?thesis
    using iff by (rule iffD2[rotated])
qed

theorem ordering_violation_counterexample:
  "\<not> sorted (map cf_date leg_late_first) \<and>
   cashflows (space_2022_2025 (ql_legs leg_late_first leg_late_first)) 1
     = Some (Inr [Finite 0, Finite 0, Finite 0]) \<and>
   \<not> sorted (map cf_date leg_out_of_order) \<and>
   redemptions (space_2022_2025 (ql_legs leg_out_of_order leg_out_of_order)) 1
     = Some (Inr [Finite 0, Finite 5, Finite 0])"
proof -
  let ?sp1 = "space_2022_2025 (ql_legs leg_late_first leg_late_first)"
  let ?sp2 = "space_2022_2025 (ql_legs leg_out_of_order leg_out_of_order)"
  have "\<not> sorted (map cf_date leg_late_first)"
    by (simp add: leg_late_first_def less_eq_date_def)
  moreover have "for_cashflows ?sp1 leg_late_first [0..<3] (replicate 3 (Finite 0), 0)
      = Inr ([Finite 0, Finite 0, Finite 0], 0)"
    unfolding upt_3
    by (simp add: while_cashflows.simps date_at_2022_2025 less_date_def less_eq_date_def
        numeral_3_eq_3 leg_late_first_def del: date_at.simps)
  then have "cashflows ?sp1 1 = Some (Inr [Finite 0, Finite 0, Finite 0])"
    using space_2022_2025_simps(4)[of "ql_legs leg_late_first leg_late_first"]
    by (auto simp add: cashflows_def step_size_2022_2025 space_2022_2025_simps(3) ql_legs_def)
  moreover have "\<not> sorted (map cf_date leg_out_of_order)"
    by (simp add: leg_out_of_order_def less_eq_date_def)
  moreover have "for_redemptions ?sp2 leg_out_of_order [0..<3] (replicate 3 (Finite 0), 0)
      = Inr ([Finite 0, Finite 5, Finite 0], 2)"
    unfolding upt_3
    by (simp add: while_redemptions.simps date_at_2022_2025 less_date_def less_eq_date_def
        numeral_3_eq_3 leg_out_of_order_def round64_small del: date_at.simps)
  then have "redemptions ?sp2 1 = Some (Inr [Finite 0, Finite 5, Finite 0])"
    using space_2022_2025_simps(4)[of "ql_legs leg_out_of_order leg_out_of_order"]
    by (auto simp add: redemptions_def step_size_2022_2025 space_2022_2025_simps(3) ql_legs_def)
  ultimately show ?thesis
    by (intro conjI)
qed



text \<open>
  C5. With valuation date 2022-01-01 and end date 2025-01-01 the boundaries are the first
  of January of 2022, 2023, 2024 and 2025 and there are 3 periods; a bond whose only
  redemption is 1000 on 2023-06-15 has the redemptions \<open>[0, 1000, 0]\<close>.
\<close>

theorem boundary_scenario:
  assumes "date_init sp = Date 1 1 2022" and "date_end sp = Date 1 1 2025"
    and "fixed_rate_bond sp bond_id = Inr bond"
    and "FixedRateBond_redemptions (ql sp) bond =
           [\<lparr>cf_date = Date 15 6 2023, amount = Finite 1000\<rparr>]"
  shows "step_size sp = Some (Inr 3) \<and>
         map (date_at sp) [0..<4] =
           [Inr (Date 1 1 2022), Inr (Date 1 1 2023), Inr (Date 1 1 2024), Inr (Date 1 1 2025)] \<and>
         redemptions sp bond_id = Some (Inr [Finite 0, Finite 1000, Finite 0])"
proof -
  note d = calendar_2022_2025(1-4)[OF assms(1,2)]
  note N = calendar_2022_2025(5)[OF assms(1,2)]
  have "for_redemptions sp [\<lparr>cf_date = Date 15 6 2023, amount = Finite 1000\<rparr>] [0..<3]
          (replicate 3 (Finite 0), 0) = Inr ([Finite 0, Finite 1000, Finite 0], 1)"
    unfolding upt_3
    by (simp add: while_redemptions.simps d less_date_def less_eq_date_def numeral_3_eq_3
        round64_small del: date_at.simps)
  then have "redemptions sp bond_id = Some (Inr [Finite 0, Finite 1000, Finite 0])"
    by (simp add: redemptions_def N assms(3,4))
  moreover have "map (date_at sp) [0..<4] =
      [Inr (Date 1 1 2022), Inr (Date 1 1 2023), Inr (Date 1 1 2024), Inr (Date 1 1 2025)]"
    unfolding upt_4 by (simp add: d del: date_at.simps)
  ultimately show ?thesis
    using N by simp
qed

theorem boundary_scenario_witness:
  "step_size (space_2022_2025 ql_at_maturity) = Some (Inr 3) \<and>
   map (date_at (space_2022_2025 ql_at_maturity)) [0..<4]
     = [Inr (Date 1 1 2022), Inr (Date 1 1 2023), Inr (Date 1 1 2024), Inr (Date 1 1 2025)] \<and>
   redemptions (space_2022_2025 ql_at_maturity) 1 = Some (Inr [Finite 0, Finite 1000, Finite 0])"
proof -
  let ?sp = "space_2022_2025 ql_at_maturity"
  obtain bond where bond: "fixed_rate_bond ?sp 1 = Inr bond"
    "FixedRateBond_redemptions (ql ?sp) bond =
       [\<lparr>cf_date = Date 15 6 2023, amount = Finite 1000\<rparr>]"
    by (simp add: space_2022_2025_def sample_space_def fixed_rate_bond_def schedule_def loc_def
        sample_row_def ql_at_maturity_def round64_small)
  show ?thesis
    using space_2022_2025_simps(1,2) bond by (rule boundary_scenario)
qed

subsection \<open>Totals over the portfolio\<close>

lemma for_bonds_returns:
  "t < length result \<Longrightarrow>
   \<forall>i\<in>set ids. cell i = Some (Inr (v i)) \<and> t < length (v i) \<Longrightarrow>
   for_bonds cell t ids result =
     Some (Inr (result[t := foldl float_add (result ! t) (map (\<lambda>i. v i ! t) ids)]))"
proof (induction ids arbitrary: result)
  case Nil
  then show ?case by simp
next
  case (Cons i ids)
  let ?r = "result[t := float_add (result ! t) (v i ! t)]"
  have "for_bonds cell t (i # ids) result = for_bonds cell t ids ?r"
    using Cons.prems by (simp add: and_then_def)
  also have "\<dots> = Some (Inr (?r[t := foldl float_add (?r ! t) (map (\<lambda>i. v i ! t) ids)]))"
    using Cons.prems by (intro Cons.IH) simp_all
  finally show ?case
    using Cons.prems(1) by simp
qed

lemma for_total_returns:
  "b \<le> length result \<Longrightarrow>
   \<forall>i\<in>set ids. cell i = Some (Inr (v i)) \<and> b \<le> length (v i) \<Longrightarrow>
   for_total cell ids [a..<b] result =
     Some (Inr (map (\<lambda>t. if a \<le> t \<and> t < b
                         then foldl float_add (result ! t) (map (\<lambda>i. v i ! t) ids)
                         else result ! t) [0..<length result]))"
proof (induction "b - a" arbitrary: a result)
  case 0
  then have "map (\<lambda>t. if a \<le> t \<and> t < b
                         then foldl float_add (result ! t) (map (\<lambda>i. v i ! t) ids)
                         else result ! t) [0..<length result] = result"
    by (intro nth_equalityI) auto
  then show ?case
    using 0 by simp
next
  case (Suc n)
  then have ab: "a < b"
    by simp
  let ?S = "\<lambda>x t. foldl float_add x (map (\<lambda>i. v i ! t) ids)"
  let ?r = "result[a := ?S (result ! a) a]"
  have "for_bonds cell a ids result = Some (Inr ?r)"
    using ab Suc.prems by (intro for_bonds_returns) auto
  then have "for_total cell ids [a..<b] result = for_total cell ids [Suc a..<b] ?r"
    using ab by (simp add: upt_conv_Cons and_then_def)
  also have "\<dots> = Some (Inr (map (\<lambda>t. if Suc a \<le> t \<and> t < b then ?S (?r ! t) t else ?r ! t)
      [0..<length ?r]))"
    using Suc.hyps(2) Suc.prems by (intro Suc.hyps(1)) simp_all
  also have "map (\<lambda>t. if Suc a \<le> t \<and> t < b then ?S (?r ! t) t else ?r ! t) [0..<length ?r] =
      map (\<lambda>t. if a \<le> t \<and> t < b then ?S (result ! t) t else result ! t) [0..<length result]"
    using ab Suc.prems(1) by (auto simp: nth_list_update)
  finally show ?case .
qed

lemma for_total_sum:
  assumes "\<forall>i\<in>set ids. cell i = Some (Inr (v i)) \<and> length (v i) = n"
  shows "for_total cell ids [0..<n] (replicate n (Finite 0)) =
     Some (Inr (map (\<lambda>t. fsum (map (\<lambda>i. v i ! t) ids)) [0..<n]))"
proof -
  have "for_total cell ids [0..<n] (replicate n (Finite 0)) =
     Some (Inr (map (\<lambda>t. if 0 \<le> t \<and> t < n
                         then foldl float_add (replicate n (Finite 0) ! t) (map (\<lambda>i. v i ! t) ids)
                         else replicate n (Finite 0) ! t) [0..<length (replicate n (Finite 0))]))"
    using assms by (intro for_total_returns) simp_all
  then show ?thesis
    by (simp add: fsum_def)
qed

lemma cashflows_index:
  assumes "step_size sp = Some (Inr N)" "i \<in> set (index sp)"
  shows "cashflows sp i = Some (Inl AssertionError) \<or>
         (\<exists>v. cashflows sp i = Some (Inr v) \<and> length v = N)"
proof -
  obtain bond where bond: "fixed_rate_bond sp i = Inr bond"
    using fixed_rate_bond_index[OF assms(2)] by blast
  obtain dN where dN: "date_at sp N = Inr dN"
    using step_size_returns[OF assms(1)] by blast
  from cashflows_cases[OF assms(1) bond dN] obtain result where
    "length result = N" and
    c: "cashflows sp i =
       Some (if 0 < N \<and> (\<exists>j. inversion_at (FixedRateBond_cashflows (ql sp) bond) j \<and>
                  (\<forall>k<j. cf_date (FixedRateBond_cashflows (ql sp) bond ! k) < dN))
             then Inl AssertionError else Inr result)"
    by blast
  show ?thesis
  proof (cases "0 < N \<and> (\<exists>j. inversion_at (FixedRateBond_cashflows (ql sp) bond) j \<and>
                  (\<forall>k<j. cf_date (FixedRateBond_cashflows (ql sp) bond ! k) < dN))")
    case True
    then have "cashflows sp i = Some (Inl AssertionError)"
      unfolding c by (simp only: if_True simp_thms)
    then show ?thesis ..
  next
    case False
    then have "cashflows sp i = Some (Inr result)"
      unfolding c by (simp only: if_False simp_thms)
    then show ?thesis
      using \<open>length result = N\<close> by blast
  qed
qed

lemma redemptions_index:
  assumes "step_size sp = Some (Inr N)" "i \<in> set (index sp)"
  shows "\<exists>w. redemptions sp i = Some (Inr w) \<and> length w = N"
proof -
  obtain bond where bond: "fixed_rate_bond sp i = Inr bond"
    using fixed_rate_bond_index[OF assms(2)] by blast
  show ?thesis
    using redemptions_cases[OF assms(1) bond] by blast
qed

lemma cashflows_total_sum:
  assumes "step_size sp = Some (Inr N)"
    and a: "\<forall>i\<in>set (index sp). cashflows sp i = Some (Inr (v i))"
  shows "cashflows_total sp =
     Some (Inr (map (\<lambda>t. fsum (map (\<lambda>i. v i ! t) (index sp))) [0..<N]))"
proof -
  have "\<forall>i\<in>set (index sp). cashflows sp i = Some (Inr (v i)) \<and> length (v i) = N"
  proof
    fix i
    assume i: "i \<in> set (index sp)"
    then have "cashflows sp i = Some (Inr (v i))"
      using a by blast
    moreover from this have "length (v i) = N"
      using cashflows_index[OF assms(1) i] by simp
    ultimately show "cashflows sp i = Some (Inr (v i)) \<and> length (v i) = N" ..
  qed
  then have "for_total (cashflows sp) (index sp) [0..<N] (replicate N (Finite 0)) =
      Some (Inr (map (\<lambda>t. fsum (map (\<lambda>i. v i ! t) (index sp))) [0..<N]))"
    by (rule for_total_sum)
  then show ?thesis
    unfolding cashflows_total_def assms(1) by simp
qed

lemma redemptions_total_sum:
  assumes "step_size sp = Some (Inr N)"
    and a: "\<forall>i\<in>set (index sp). redemptions sp i = Some (Inr (w i))"
  shows "redemptions_total sp =
     Some (Inr (map (\<lambda>t. fsum (map (\<lambda>i. w i ! t) (index sp))) [0..<N]))"
proof -
  have "\<forall>i\<in>set (index sp). redemptions sp i = Some (Inr (w i)) \<and> length (w i) = N"
  proof
    fix i
    assume i: "i \<in> set (index sp)"
    then have "redemptions sp i = Some (Inr (w i))"
      using a by blast
    moreover from this have "length (w i) = N"
      using redemptions_index[OF assms(1) i] by simp
    ultimately show "redemptions sp i = Some (Inr (w i)) \<and> length (w i) = N" ..
  qed
  then have "for_total (redemptions sp) (index sp) [0..<N] (replicate N (Finite 0)) =
      Some (Inr (map (\<lambda>t. fsum (map (\<lambda>i. w i ! t) (index sp))) [0..<N]))"
    by (rule for_total_sum)
  then show ?thesis
    unfolding redemptions_total_def assms(1) by simp
qed

lemma totals_empty:
  assumes "step_size sp = Some (Inr N)" and "bond_data sp = []"
  shows "cashflows_total sp = Some (Inr (replicate N (Finite 0)))"
    and "redemptions_total sp = Some (Inr (replicate N (Finite 0)))"
proof -
  have "index sp = []"
    using assms(2) by (simp add: index_def)
  then have "\<forall>i\<in>set (index sp). cell i = Some (Inr ([]::float64 list)) \<and>
      length ([]::float64 list) = N"
    for cell :: "bond_id \<Rightarrow> (error + float64 list) option"
    by simp
  then have "for_total cell (index sp) [0..<N] (replicate N (Finite 0)) =
      Some (Inr (map (\<lambda>t. fsum (map (\<lambda>i. [] ! t) (index sp))) [0..<N]))"
    for cell :: "bond_id \<Rightarrow> (error + float64 list) option"
    by (rule for_total_sum)
  then have e: "for_total cell (index sp) [0..<N] (replicate N (Finite 0)) =
      Some (Inr (replicate N (Finite 0)))"
    for cell :: "bond_id \<Rightarrow> (error + float64 list) option"
    using \<open>index sp = []\<close> by (simp add: map_replicate_const fsum_def)
  show "cashflows_total sp = Some (Inr (replicate N (Finite 0)))"
    unfolding cashflows_total_def assms(1) using e by simp
  show "redemptions_total sp = Some (Inr (replicate N (Finite 0)))"
    unfolding redemptions_total_def assms(1) using e by simp
qed

text \<open>
  C4, as amended. \<open>cashflows_total\<close> and \<open>redemptions_total\<close> are, element by element,
  the float sums made from 0 over the labels in the order of the table, of the vectors
  that \<open>cashflows\<close> and \<open>redemptions\<close> return for the bonds; for an empty table the result
  is \<open>N\<close> zeros.
\<close>

theorem totals_elementwise_sum:
  assumes "step_size sp = Some (Inr N)"
  shows "((\<forall>i\<in>set (index sp). cashflows sp i = Some (Inr (v i))) \<longrightarrow>
            cashflows_total sp =
              Some (Inr (map (\<lambda>t. fsum (map (\<lambda>i. v i ! t) (index sp))) [0..<N]))) \<and>
         ((\<forall>i\<in>set (index sp). redemptions sp i = Some (Inr (w i))) \<longrightarrow>
            redemptions_total sp =
              Some (Inr (map (\<lambda>t. fsum (map (\<lambda>i. w i ! t) (index sp))) [0..<N]))) \<and>
         (bond_data sp = [] \<longrightarrow>
            cashflows_total sp = Some (Inr (replicate N (Finite 0))) \<and>
            redemptions_total sp = Some (Inr (replicate N (Finite 0))))"
  using cashflows_total_sum[OF assms] redemptions_total_sum[OF assms] totals_empty[OF assms]
  by (intro conjI impI)

lemma round64_zero: "round64 0 = Finite 0"
  by (simp add: round64_def)

lemma at_maturity_period_0:
  assumes "date_init sp = Date 1 1 2022" and "date_end sp = Date 1 1 2025"
    and "ql sp = ql_at_maturity"
    and "loc sp i = Inr (sample_row fv (Date 1 3 2022) tn)"
  shows "cashflows sp i = Some (Inr [float_add (Finite 0) (round64 (of_int fv)), Finite 0, Finite 0])"
    and "redemptions sp i = Some (Inr [float_add (Finite 0) (round64 (of_int fv)), Finite 0, Finite 0])"
proof -
  note d = calendar_2022_2025(1-4)[OF assms(1,2)]
  note N = calendar_2022_2025(5)[OF assms(1,2)]
  obtain bond where bond: "fixed_rate_bond sp i = Inr bond"
    "FixedRateBond_cashflows (ql sp) bond =
       [\<lparr>cf_date = Date 1 3 2022, amount = round64 (of_int fv)\<rparr>]"
    "FixedRateBond_redemptions (ql sp) bond =
       [\<lparr>cf_date = Date 1 3 2022, amount = round64 (of_int fv)\<rparr>]"
    by (simp add: fixed_rate_bond_def schedule_def assms(3,4) sample_row_def ql_at_maturity_def)
  have "for_cashflows sp [\<lparr>cf_date = Date 1 3 2022, amount = round64 (of_int fv)\<rparr>] [0..<3]
          (replicate 3 (Finite 0), 0) = Inr ([float_add (Finite 0) (round64 (of_int fv)), Finite 0, Finite 0], 1)"
    unfolding upt_3
    by (simp add: while_cashflows.simps d less_date_def less_eq_date_def numeral_3_eq_3
        del: date_at.simps)
  then show "cashflows sp i = Some (Inr [float_add (Finite 0) (round64 (of_int fv)), Finite 0, Finite 0])"
    by (simp add: cashflows_def N bond)
  have "for_redemptions sp [\<lparr>cf_date = Date 1 3 2022, amount = round64 (of_int fv)\<rparr>] [0..<3]
          (replicate 3 (Finite 0), 0) = Inr ([float_add (Finite 0) (round64 (of_int fv)), Finite 0, Finite 0], 1)"
    unfolding upt_3
    by (simp add: while_redemptions.simps d less_date_def less_eq_date_def numeral_3_eq_3
        del: date_at.simps)
  then show "redemptions sp i = Some (Inr [float_add (Finite 0) (round64 (of_int fv)), Finite 0, Finite 0])"
    by (simp add: redemptions_def N bond)
qed

lemma at_maturity_period_1:
  assumes "date_init sp = Date 1 1 2022" and "date_end sp = Date 1 1 2025"
    and "ql sp = ql_at_maturity"
    and "loc sp i = Inr (sample_row fv (Date 15 6 2023) tn)"
  shows "cashflows sp i = Some (Inr [Finite 0, float_add (Finite 0) (round64 (of_int fv)), Finite 0])"
    and "redemptions sp i = Some (Inr [Finite 0, float_add (Finite 0) (round64 (of_int fv)), Finite 0])"
proof -
  note d = calendar_2022_2025(1-4)[OF assms(1,2)]
  note N = calendar_2022_2025(5)[OF assms(1,2)]
  obtain bond where bond: "fixed_rate_bond sp i = Inr bond"
    "FixedRateBond_cashflows (ql sp) bond =
       [\<lparr>cf_date = Date 15 6 2023, amount = round64 (of_int fv)\<rparr>]"
    "FixedRateBond_redemptions (ql sp) bond =
       [\<lparr>cf_date = Date 15 6 2023, amount = round64 (of_int fv)\<rparr>]"
    by (simp add: fixed_rate_bond_def schedule_def assms(3,4) sample_row_def ql_at_maturity_def)
  have "for_cashflows sp [\<lparr>cf_date = Date 15 6 2023, amount = round64 (of_int fv)\<rparr>] [0..<3]
          (replicate 3 (Finite 0), 0) = Inr ([Finite 0, float_add (Finite 0) (round64 (of_int fv)), Finite 0], 1)"
    unfolding upt_3
    by (simp add: while_cashflows.simps d less_date_def less_eq_date_def numeral_3_eq_3
        del: date_at.simps)
  then show "cashflows sp i = Some (Inr [Finite 0, float_add (Finite 0) (round64 (of_int fv)), Finite 0])"
    by (simp add: cashflows_def N bond)
  have "for_redemptions sp [\<lparr>cf_date = Date 15 6 2023, amount = round64 (of_int fv)\<rparr>] [0..<3]
          (replicate 3 (Finite 0), 0) = Inr ([Finite 0, float_add (Finite 0) (round64 (of_int fv)), Finite 0], 1)"
    unfolding upt_3
    by (simp add: while_redemptions.simps d less_date_def less_eq_date_def numeral_3_eq_3
        del: date_at.simps)
  then show "redemptions sp i = Some (Inr [Finite 0, float_add (Finite 0) (round64 (of_int fv)), Finite 0])"
    by (simp add: redemptions_def N bond)
qed

theorem totals_elementwise_sum_witness:
  "cashflows_total
     (sample_space (Date 1 1 2022) (Date 1 1 2025)
        [(1, sample_row 1000 (Date 15 6 2023) ''1Y''), (3, sample_row 500 (Date 1 3 2022) ''6M'')]
        ql_at_maturity) = Some (Inr [Finite 500, Finite 1000, Finite 0]) \<and>
   redemptions_total
     (sample_space (Date 1 1 2022) (Date 1 1 2025)
        [(1, sample_row 1000 (Date 15 6 2023) ''1Y''), (3, sample_row 500 (Date 1 3 2022) ''6M'')]
        ql_at_maturity) = Some (Inr [Finite 500, Finite 1000, Finite 0]) \<and>
   cashflows_total (sample_space (Date 1 1 2022) (Date 1 1 2025) [] ql_at_maturity)
     = Some (Inr [Finite 0, Finite 0, Finite 0])"
proof -
  let ?sp = "sample_space (Date 1 1 2022) (Date 1 1 2025)
        [(1, sample_row 1000 (Date 15 6 2023) ''1Y''), (3, sample_row 500 (Date 1 3 2022) ''6M'')]
        ql_at_maturity"
  let ?se = "sample_space (Date 1 1 2022) (Date 1 1 2025) [] ql_at_maturity"
  let ?v = "\<lambda>i::bond_id. if i = 1 then [Finite 0, Finite 1000, Finite 0]
                          else [Finite 500, Finite 0, Finite 0]"
  have sp: "date_init ?sp = Date 1 1 2022" "date_end ?sp = Date 1 1 2025"
    "ql ?sp = ql_at_maturity"
    "loc ?sp 1 = Inr (sample_row 1000 (Date 15 6 2023) ''1Y'')"
    "loc ?sp 3 = Inr (sample_row 500 (Date 1 3 2022) ''6M'')"
    and se: "date_init ?se = Date 1 1 2022" "date_end ?se = Date 1 1 2025"
    by (simp_all add: sample_space_def loc_def)
  note N = calendar_2022_2025(5)[OF sp(1,2)]
  note Ne = calendar_2022_2025(5)[OF se(1,2)]
  have idx: "index ?sp = [1, 3]" and empty: "bond_data ?se = []"
    by (simp_all add: index_def sample_space_def)
  have c1: "cashflows ?sp 1 = Some (Inr [Finite 0, Finite 1000, Finite 0])"
    and r1: "redemptions ?sp 1 = Some (Inr [Finite 0, Finite 1000, Finite 0])"
    using at_maturity_period_1[OF sp(1,2,3,4)] by (simp_all add: round64_small)
  have c3: "cashflows ?sp 3 = Some (Inr [Finite 500, Finite 0, Finite 0])"
    and r3: "redemptions ?sp 3 = Some (Inr [Finite 500, Finite 0, Finite 0])"
    using at_maturity_period_0[OF sp(1,2,3,5)] by (simp_all add: round64_small)
  have c: "\<forall>i\<in>set (index ?sp). cashflows ?sp i = Some (Inr (?v i))"
    and r: "\<forall>i\<in>set (index ?sp). redemptions ?sp i = Some (Inr (?v i))"
    unfolding idx using c1 c3 r1 r3 by simp_all
  have s: "map (\<lambda>t. fsum (map (\<lambda>i. ?v i ! t) (index ?sp))) [0..<3] =
      [Finite 500, Finite 1000, Finite 0]"
    unfolding idx upt_3 by (simp add: fsum_def round64_small round64_zero)
  note t = totals_elementwise_sum[OF N, of ?v ?v]
  have "cashflows_total ?sp = Some (Inr [Finite 500, Finite 1000, Finite 0])"
    using t c unfolding s by blast
  moreover have "redemptions_total ?sp = Some (Inr [Finite 500, Finite 1000, Finite 0])"
    using t r unfolding s by blast
  moreover have "cashflows_total ?se = Some (Inr [Finite 0, Finite 0, Finite 0])"
    using totals_elementwise_sum[OF Ne, of ?v ?v] empty
    by (simp add: numeral_3_eq_3)
  ultimately show ?thesis
    by (intro conjI)
qed

theorem totals_order_counterexample:
  "cashflows_total
     (sample_space (Date 1 1 2022) (Date 1 1 2025)
        [(1, sample_row 9007199254740992 (Date 1 3 2022) ''1Y''),
         (2, sample_row 1 (Date 1 3 2022) ''1Y''),
         (3, sample_row 1 (Date 1 3 2022) ''1Y'')]
        ql_at_maturity) = Some (Inr [Finite 9007199254740992, Finite 0, Finite 0]) \<and>
   cashflows_total
     (sample_space (Date 1 1 2022) (Date 1 1 2025)
        [(3, sample_row 1 (Date 1 3 2022) ''1Y''),
         (2, sample_row 1 (Date 1 3 2022) ''1Y''),
         (1, sample_row 9007199254740992 (Date 1 3 2022) ''1Y'')]
        ql_at_maturity) = Some (Inr [Finite 9007199254740994, Finite 0, Finite 0])"
proof -
  let ?s1 = "sample_space (Date 1 1 2022) (Date 1 1 2025)
        [(1, sample_row 9007199254740992 (Date 1 3 2022) ''1Y''),
         (2, sample_row 1 (Date 1 3 2022) ''1Y''),
         (3, sample_row 1 (Date 1 3 2022) ''1Y'')]
        ql_at_maturity"
  let ?s2 = "sample_space (Date 1 1 2022) (Date 1 1 2025)
        [(3, sample_row 1 (Date 1 3 2022) ''1Y''),
         (2, sample_row 1 (Date 1 3 2022) ''1Y''),
         (1, sample_row 9007199254740992 (Date 1 3 2022) ''1Y'')]
        ql_at_maturity"
  let ?v = "\<lambda>i::bond_id. if i = 1 then [Finite 9007199254740992, Finite 0, Finite 0]
                          else [Finite 1, Finite 0, Finite 0]"
  have s1: "date_init ?s1 = Date 1 1 2022" "date_end ?s1 = Date 1 1 2025"
    "ql ?s1 = ql_at_maturity"
    "loc ?s1 1 = Inr (sample_row 9007199254740992 (Date 1 3 2022) ''1Y'')"
    "loc ?s1 2 = Inr (sample_row 1 (Date 1 3 2022) ''1Y'')"
    "loc ?s1 3 = Inr (sample_row 1 (Date 1 3 2022) ''1Y'')"
    and s2: "date_init ?s2 = Date 1 1 2022" "date_end ?s2 = Date 1 1 2025"
    "ql ?s2 = ql_at_maturity"
    "loc ?s2 1 = Inr (sample_row 9007199254740992 (Date 1 3 2022) ''1Y'')"
    "loc ?s2 2 = Inr (sample_row 1 (Date 1 3 2022) ''1Y'')"
    "loc ?s2 3 = Inr (sample_row 1 (Date 1 3 2022) ''1Y'')"
    by (simp_all add: sample_space_def loc_def)
  have idx: "index ?s1 = [1, 2, 3]" "index ?s2 = [3, 2, 1]"
    by (simp_all add: index_def sample_space_def)
  have c1: "\<forall>i\<in>set (index ?s1). cashflows ?s1 i = Some (Inr (?v i))"
    unfolding idx
    using at_maturity_period_0(1)[OF s1(1,2,3,4)] at_maturity_period_0(1)[OF s1(1,2,3,5)]
      at_maturity_period_0(1)[OF s1(1,2,3,6)]
    by (simp add: round64_small round64_large)
  have c2: "\<forall>i\<in>set (index ?s2). cashflows ?s2 i = Some (Inr (?v i))"
    unfolding idx
    using at_maturity_period_0(1)[OF s2(1,2,3,4)] at_maturity_period_0(1)[OF s2(1,2,3,5)]
      at_maturity_period_0(1)[OF s2(1,2,3,6)]
    by (simp add: round64_small round64_large)
  have "cashflows_total ?s1 = Some (Inr [Finite 9007199254740992, Finite 0, Finite 0])"
    unfolding cashflows_total_sum[OF calendar_2022_2025(5)[OF s1(1,2)] c1] idx upt_3
    by (simp add: fsum_def round64_small round64_large round64_tie round64_zero)
  moreover have "cashflows_total ?s2 = Some (Inr [Finite 9007199254740994, Finite 0, Finite 0])"
    unfolding cashflows_total_sum[OF calendar_2022_2025(5)[OF s2(1,2)] c2] idx upt_3
    by (simp add: fsum_def round64_small round64_large round64_tie round64_zero)
  ultimately show ?thesis
    by (intro conjI)
qed

end
